theory Spec2Isabelle
  imports Complex_Main
begin

section \<open>Strings\<close>

text \<open>
  A JavaScript string is a sequence of UTF-16 code units. A code unit is modelled by its
  number, so \<open>length\<close> is the \<^verbatim>\<open>.length\<close> of the source and a character outside the
  Basic Latin block (the emoji of the reasoning labels) is the list of its code units.
  \<open>js\<close> turns an ASCII literal into such a string.
\<close>

type_synonym jsstring = "nat list"

definition js :: "string \<Rightarrow> jsstring" where
  "js s = map of_char s"

section \<open>ResponseCache: \<^verbatim>\<open>src/services/cache.ts\<close>\<close>

text \<open>\<^verbatim>\<open>AIResponse\<close> of \<^verbatim>\<open>shared/types.ts\<close>, with the two metadata fields that
  \<^verbatim>\<open>generateWebsite\<close> fills in.\<close>

record AIResponse_metadata =
  response_tokensUsed :: "int option"
  response_responseTime :: int

record AIResponse =
  response_content :: jsstring
  response_provider :: jsstring
  response_model :: jsstring
  response_timestamp :: int
  response_metadata :: AIResponse_metadata

text \<open>
  \<^verbatim>\<open>private cache: Map<string, AIResponse>\<close>. A JavaScript \<^verbatim>\<open>Map\<close> iterates in
  insertion order, so a map is the list of its entries, oldest first.
\<close>

type_synonym cache = "(jsstring \<times> AIResponse) list"

definition MAX_CACHE_SIZE :: nat where
  "MAX_CACHE_SIZE = 100"

text \<open>\<^verbatim>\<open>Map.prototype.get\<close>, \<^verbatim>\<open>has\<close>, \<^verbatim>\<open>delete\<close>, \<^verbatim>\<open>set\<close>: \<^verbatim>\<open>set\<close> on a key already
  present replaces the value and keeps the entry's position; a new key goes to the end.\<close>

fun Map_get :: "'k \<Rightarrow> ('k \<times> 'v) list \<Rightarrow> 'v option" where
  "Map_get k [] = None"
| "Map_get k (p # ps) = (if fst p = k then Some (snd p) else Map_get k ps)"

definition Map_has :: "'k \<Rightarrow> ('k \<times> 'v) list \<Rightarrow> bool" where
  "Map_has k m = (Map_get k m \<noteq> None)"

fun Map_delete :: "'k \<Rightarrow> ('k \<times> 'v) list \<Rightarrow> ('k \<times> 'v) list" where
  "Map_delete k [] = []"
| "Map_delete k (p # ps) = (if fst p = k then Map_delete k ps else p # Map_delete k ps)"

fun Map_set :: "'k \<Rightarrow> 'v \<Rightarrow> ('k \<times> 'v) list \<Rightarrow> ('k \<times> 'v) list" where
  "Map_set k v [] = [(k, v)]"
| "Map_set k v (p # ps) = (if fst p = k then (k, v) # ps else p # Map_set k v ps)"

text \<open>\<^verbatim>\<open>CacheService.get(key)\<close>: the lookup, and the cache as the call leaves it.\<close>

definition CacheService_get :: "jsstring \<Rightarrow> cache \<Rightarrow> AIResponse option \<times> cache" where
  "CacheService_get key c = (Map_get key c, c)"

text \<open>
  \<^verbatim>\<open>CacheService.set(key, response)\<close>. \<^verbatim>\<open>this.cache.keys().next().value\<close> is the key of
  the oldest entry (\<^verbatim>\<open>undefined\<close> on an empty map, where the \<^verbatim>\<open>delete\<close> does nothing).
\<close>

definition CacheService_set :: "jsstring \<Rightarrow> AIResponse \<Rightarrow> cache \<Rightarrow> cache" where
  "CacheService_set key response c =
     (let c1 = (if length c \<ge> MAX_CACHE_SIZE
                then (case c of [] \<Rightarrow> c | firstEntry # _ \<Rightarrow> Map_delete (fst firstEntry) c)
                else c)
      in Map_set key response c1)"

definition CacheService_has :: "jsstring \<Rightarrow> cache \<Rightarrow> bool" where
  "CacheService_has key c = Map_has key c"

definition CacheService_delete :: "jsstring \<Rightarrow> cache \<Rightarrow> bool \<times> cache" where
  "CacheService_delete key c = (Map_has key c, Map_delete key c)"

definition CacheService_clear :: "cache \<Rightarrow> cache" where
  "CacheService_clear c = []"

definition getKeys :: "cache \<Rightarrow> jsstring list" where
  "getKeys c = map fst c"

definition getSize :: "cache \<Rightarrow> nat" where
  "getSize c = length c"

definition isFull :: "cache \<Rightarrow> bool" where
  "isFull c = (length c \<ge> MAX_CACHE_SIZE)"

text \<open>The calls a client can make on a \<^verbatim>\<open>CacheService\<close>, and a run of them.\<close>

datatype cache_op =
    OpGet jsstring
  | OpSet jsstring AIResponse
  | OpHas jsstring
  | OpDelete jsstring
  | OpClear

fun cache_step :: "cache_op \<Rightarrow> cache \<Rightarrow> cache" where
  "cache_step (OpGet k) c = snd (CacheService_get k c)"
| "cache_step (OpSet k v) c = CacheService_set k v c"
| "cache_step (OpHas k) c = c"
| "cache_step (OpDelete k) c = snd (CacheService_delete k c)"
| "cache_step OpClear c = CacheService_clear c"

fun cache_run :: "cache_op list \<Rightarrow> cache \<Rightarrow> cache" where
  "cache_run [] c = c"
| "cache_run (x # xs) c = cache_run xs (cache_step x c)"

section \<open>Errors: \<^verbatim>\<open>AIError\<close> and thrown values\<close>

datatype error_code =
    INVALID_URL
  | AI_PROVIDER_ERROR
  | API_KEY_MISSING
  | NETWORK_ERROR
  | RATE_LIMIT_EXCEEDED
  | CONTENT_GENERATION_FAILED
  | NAVIGATION_ERROR

text \<open>\<^verbatim>\<open>new AIError(message, code, provider?)\<close>.\<close>

record AIError =
  message :: jsstring
  code :: error_code
  error_provider :: "jsstring option"

text \<open>
  What a \<^verbatim>\<open>catch (error)\<close> can receive from the backend: an \<^verbatim>\<open>Error\<close> object, of which
  the handlers read the message only, or any other value.
\<close>

datatype thrown = ErrorObject jsstring | NonError

text \<open>\<^verbatim>\<open>error instanceof Error ? error.message : 'Unknown error'\<close>\<close>

fun message_of :: "thrown \<Rightarrow> jsstring" where
  "message_of (ErrorObject m) = m"
| "message_of NonError = js ''Unknown error''"

section \<open>ProviderRegistry: \<^verbatim>\<open>src/main/services/provider-service.ts\<close>\<close>

record AIProvider =
  provider_id :: jsstring
  provider_name :: jsstring
  apiKey :: jsstring
  provider_model :: jsstring
  enabled :: bool

type_synonym providers = "(jsstring \<times> AIProvider) list"

record EnvironmentVariables =
  OPENAI_API_KEY :: "jsstring option"
  ANTHROPIC_API_KEY :: "jsstring option"
  GOOGLE_API_KEY :: "jsstring option"

text \<open>
  One block of \<^verbatim>\<open>initializeProviders\<close>: the provider is registered when its environment
  variable is set and not the empty string.
\<close>

fun register :: "jsstring \<Rightarrow> jsstring \<Rightarrow> jsstring \<Rightarrow> jsstring option \<Rightarrow> providers \<Rightarrow> providers" where
  "register pid pname pmodel None ps = ps"
| "register pid pname pmodel (Some k) ps =
     (if k = [] then ps
      else Map_set pid \<lparr>provider_id = pid, provider_name = pname, apiKey = k,
                          provider_model = pmodel, enabled = True\<rparr> ps)"

definition initializeProviders :: "EnvironmentVariables \<Rightarrow> providers" where
  "initializeProviders env =
     (let p1 = register (js ''openai'') (js ''OpenAI GPT-4'') (js ''gpt-4o'')
                 (OPENAI_API_KEY env) [];
          p2 = register (js ''anthropic'') (js ''Anthropic Claude'')
                 (js ''claude-sonnet-4-20250514'') (ANTHROPIC_API_KEY env) p1;
          p3 = register (js ''google'') (js ''Google Gemini'') (js ''gemini-1.5-flash'')
                 (GOOGLE_API_KEY env) p2
      in p3)"

definition getProviders :: "providers \<Rightarrow> AIProvider list" where
  "getProviders ps = map snd ps"

definition getDefaultProvider :: "providers \<Rightarrow> AIError + jsstring" where
  "getDefaultProvider ps =
     (case getProviders ps of
        [] \<Rightarrow> Inl \<lparr>message = js ''No providers available'', code = API_KEY_MISSING,
                   error_provider = None\<rparr>
      | p # _ \<Rightarrow> Inr (provider_id p))"

definition hasProviders :: "providers \<Rightarrow> bool" where
  "hasProviders ps = (length ps > 0)"

text \<open>The handle that \<^verbatim>\<open>openai(model)\<close>, \<^verbatim>\<open>anthropic(model)\<close> or \<^verbatim>\<open>google(model)\<close> builds.\<close>

datatype model_handle = OpenAI jsstring | Anthropic jsstring | Google jsstring

definition getModelForProvider :: "jsstring \<Rightarrow> jsstring \<Rightarrow> AIError + model_handle" where
  "getModelForProvider provider defaultModel =
     (if provider = js ''openai'' then Inr (OpenAI defaultModel)
      else if provider = js ''anthropic'' then Inr (Anthropic defaultModel)
      else if provider = js ''google'' then Inr (Google defaultModel)
      else Inl \<lparr>message = js ''Unsupported provider: '' @ provider, code = AI_PROVIDER_ERROR,
                error_provider = Some provider\<rparr>)"

definition validateProvider :: "providers \<Rightarrow> jsstring \<Rightarrow> AIError + AIProvider" where
  "validateProvider ps providerId =
     (case Map_get providerId ps of
        None \<Rightarrow> Inl \<lparr>message = js ''Provider '' @ providerId @ js '' not found'',
                     code = AI_PROVIDER_ERROR, error_provider = Some providerId\<rparr>
      | Some provider \<Rightarrow>
          if apiKey provider = []
          then Inl \<lparr>message = js ''API key not configured for provider '' @ providerId,
                    code = API_KEY_MISSING, error_provider = Some providerId\<rparr>
          else Inr provider)"

section \<open>Generation options\<close>

text \<open>
  The values an options object can hold, as far as \<^verbatim>\<open>JSON.stringify\<close> tells them apart.
  A number is an integer here (\<^verbatim>\<open>maxTokens: 4000\<close>); an object is the list of its
  properties in the order in which the engine enumerates them, which for names that are
  not array indices is the order in which they were added.
\<close>

datatype json =
    JNull
  | JBool bool
  | JNum int
  | JStr jsstring
  | JArr "json list"
  | JObj "(jsstring \<times> json) list"

type_synonym options = "(jsstring \<times> json) list"

text \<open>\<^verbatim>\<open>ToBoolean\<close>: what \<^verbatim>\<open>a || b\<close> tests. A missing property is \<^verbatim>\<open>undefined\<close>, falsy.\<close>

fun truthy :: "json \<Rightarrow> bool" where
  "truthy JNull = False"
| "truthy (JBool b) = b"
| "truthy (JNum n) = (n \<noteq> 0)"
| "truthy (JStr s) = (s \<noteq> [])"
| "truthy (JArr xs) = True"
| "truthy (JObj ps) = True"

text \<open>\<^verbatim>\<open>options.temperature || 0.7\<close>: the given value, or the default \<open>0.7\<close>.\<close>

datatype temperature = Temperature json | Temperature_default

definition temperature_or_default :: "options \<Rightarrow> temperature" where
  "temperature_or_default opts =
     (case Map_get (js ''temperature'') opts of
        None \<Rightarrow> Temperature_default
      | Some t \<Rightarrow> if truthy t then Temperature t else Temperature_default)"

text \<open>\<^verbatim>\<open>options.maxTokens || limit\<close>\<close>

definition maxTokens_or :: "options \<Rightarrow> int \<Rightarrow> json" where
  "maxTokens_or opts limit =
     (case Map_get (js ''maxTokens'') opts of
        None \<Rightarrow> JNum limit
      | Some t \<Rightarrow> if truthy t then t else JNum limit)"

definition DEFAULT_MAX_TOKENS :: int where
  "DEFAULT_MAX_TOKENS = 4000"

definition STREAMING_MAX_TOKENS :: int where
  "STREAMING_MAX_TOKENS = 60000"

text \<open>The argument of \<^verbatim>\<open>generateText\<close> and of \<^verbatim>\<open>streamText\<close>.\<close>

record backend_args =
  arg_model :: model_handle
  arg_prompt :: jsstring
  arg_temperature :: temperature
  arg_maxOutputTokens :: json

text \<open>
  The clock: the \<open>n\<close>-th call of \<^verbatim>\<open>Date.now()\<close> that a request makes returns \<open>clock n\<close>,
  for a clock that is an input of the model and need not be monotone.
\<close>

type_synonym clock = "nat \<Rightarrow> int"

section \<open>The cache key: \<^verbatim>\<open>JSON.stringify\<close> and \<^verbatim>\<open>CacheService.generateCacheKey\<close>\<close>

text \<open>Decimal digits of a natural number, and \<^verbatim>\<open>Number.prototype.toString\<close> on an integer.\<close>

fun digits :: "nat \<Rightarrow> jsstring" where
  "digits n = (if n < 10 then [48 + n] else digits (n div 10) @ [48 + n mod 10])"

definition Number_toString :: "int \<Rightarrow> jsstring" where
  "Number_toString n = (if n < 0 then 45 # digits (nat (- n)) else digits (nat n))"

text \<open>
  \<^verbatim>\<open>QuoteJSONString\<close> (ECMA-262, 25.5.2.3). The code units: 34 is the double quote, 92 the
  backslash, 117 the letter u; 8, 9, 10, 12, 13 have the short escapes with the letters
  b, t, n, f, r. Other control characters and lone surrogates are written as a backslash,
  u and four lower-case hexadecimal digits; a high surrogate followed by a low one is a
  character of its own and is copied.
\<close>

definition hexdigit :: "nat \<Rightarrow> nat" where
  "hexdigit n = (if n < 10 then 48 + n else 87 + n)"

definition unicode_escape :: "nat \<Rightarrow> jsstring" where
  "unicode_escape c =
     [92, 117, hexdigit (c div 4096 mod 16), hexdigit (c div 256 mod 16),
      hexdigit (c div 16 mod 16), hexdigit (c mod 16)]"

definition is_high_surrogate :: "nat \<Rightarrow> bool" where
  "is_high_surrogate c \<longleftrightarrow> 55296 \<le> c \<and> c \<le> 56319"

definition is_low_surrogate :: "nat \<Rightarrow> bool" where
  "is_low_surrogate c \<longleftrightarrow> 56320 \<le> c \<and> c \<le> 57343"

definition escape_unit :: "nat \<Rightarrow> jsstring" where
  "escape_unit c =
     (if c = 8 then [92, 98]
      else if c = 9 then [92, 116]
      else if c = 10 then [92, 110]
      else if c = 12 then [92, 102]
      else if c = 13 then [92, 114]
      else if c = 34 then [92, 34]
      else if c = 92 then [92, 92]
      else if c < 32 \<or> is_high_surrogate c \<or> is_low_surrogate c then unicode_escape c
      else [c])"

fun quote_units :: "jsstring \<Rightarrow> jsstring" where
  "quote_units [] = []"
| "quote_units [c] = escape_unit c"
| "quote_units (c # d # cs) =
     (if is_high_surrogate c \<and> is_low_surrogate d then c # d # quote_units cs
      else escape_unit c @ quote_units (d # cs))"

definition QuoteJSONString :: "jsstring \<Rightarrow> jsstring" where
  "QuoteJSONString s = 34 # quote_units s @ [34]"

text \<open>
  \<^verbatim>\<open>JSON.stringify(value)\<close> without indentation: the elements of an array and the
  members of an object are separated by commas (44), a member is the quoted name, a
  colon (58) and the value, in the order in which the object lists its properties.
\<close>

fun stringify :: "json \<Rightarrow> jsstring"
  and stringify_elements :: "json list \<Rightarrow> jsstring"
  and stringify_members :: "(jsstring \<times> json) list \<Rightarrow> jsstring" where
  "stringify JNull = js ''null''"
| "stringify (JBool b) = (if b then js ''true'' else js ''false'')"
| "stringify (JNum n) = Number_toString n"
| "stringify (JStr s) = QuoteJSONString s"
| "stringify (JArr xs) = 91 # stringify_elements xs @ [93]"
| "stringify (JObj ps) = 123 # stringify_members ps @ [125]"
| "stringify_elements [] = []"
| "stringify_elements [x] = stringify x"
| "stringify_elements (x # y # ys) = stringify x @ 44 # stringify_elements (y # ys)"
| "stringify_members [] = []"
| "stringify_members [(k, v)] = QuoteJSONString k @ 58 # stringify v"
| "stringify_members ((k, v) # q # qs) =
     QuoteJSONString k @ 58 # stringify v @ 44 # stringify_members (q # qs)"

text \<open>\<^verbatim>\<open>`${url}:${provider}:${JSON.stringify(options)}`\<close>\<close>

definition generateCacheKey :: "jsstring \<Rightarrow> jsstring \<Rightarrow> json \<Rightarrow> jsstring" where
  "generateCacheKey url provider opts = url @ 58 # provider @ 58 # stringify opts"

section \<open>GenerationOrchestrator: \<^verbatim>\<open>src/services/llm.ts\<close>\<close>

record AIRequest =
  request_url :: jsstring
  request_provider :: "jsstring option"
  request_options :: "options option"

text \<open>What \<^verbatim>\<open>generateText\<close> returns: the text and \<^verbatim>\<open>usage?.totalTokens\<close>.\<close>

record completion =
  completion_text :: jsstring
  completion_totalTokens :: "int option"

text \<open>
  The calls that \<^verbatim>\<open>generateWebsite\<close> makes on its collaborators, recorded in the order in
  which they happen: the validation of a provider, the construction of the prompt, the
  call of the backend.
\<close>

datatype effect =
    Validated jsstring
  | PromptBuilt jsstring
  | BackendCalled backend_args

record service =
  cache :: cache
  trace :: "effect list"

text \<open>\<^verbatim>\<open>provider = this.getDefaultProvider()\<close> of the destructuring: the default is
  computed, and may throw, only when the request names no provider.\<close>

definition resolve_provider :: "providers \<Rightarrow> AIRequest \<Rightarrow> AIError + jsstring" where
  "resolve_provider ps request =
     (case request_provider request of
        Some p \<Rightarrow> Inr p
      | None \<Rightarrow> getDefaultProvider ps)"

definition resolve_options :: "AIRequest \<Rightarrow> options" where
  "resolve_options request = (case request_options request of Some opts \<Rightarrow> opts | None \<Rightarrow> [])"

text \<open>
  \<^verbatim>\<open>LLMService.generateWebsite(request)\<close>: the response or the error raised, and the
  service afterwards. Inputs besides the request: the registry, the prompt builder (a
  function of the URL), \<open>backend\<close>, which is what the call of \<^verbatim>\<open>generateText\<close> does if it
  is made (it throws, or it returns a completion), and the clock (reading 0 is the one of
  the request id, 1 is \<^verbatim>\<open>startTime\<close>, 2 gives \<^verbatim>\<open>responseTime\<close>, 3 is the timestamp).
  The registry is the \<^verbatim>\<open>ProviderService\<close> of \<^verbatim>\<open>main/services/provider-service.ts\<close>.
  The function is given in three parts: the
  response of lines 127-136, the \<^verbatim>\<open>try\<close> block of lines 103-170 with its \<^verbatim>\<open>catch\<close>, which
  wraps whatever the block throws, and the steps before it.
\<close>

definition build_response :: "clock \<Rightarrow> AIProvider \<Rightarrow> completion \<Rightarrow> AIResponse" where
  "build_response clock aiProvider result =
     \<lparr>response_content = completion_text result,
      response_provider = provider_id aiProvider,
      response_model = provider_model aiProvider,
      response_timestamp = clock 3,
      response_metadata =
        \<lparr>response_tokensUsed = completion_totalTokens result,
         response_responseTime = clock 2 - clock 1\<rparr>\<rparr>"

definition generation_failed :: "jsstring \<Rightarrow> jsstring \<Rightarrow> AIError" where
  "generation_failed provider msg =
     \<lparr>message = js ''Failed to generate content: '' @ msg,
      code = CONTENT_GENERATION_FAILED, error_provider = Some provider\<rparr>"

definition try_generate :: "thrown + completion \<Rightarrow> clock \<Rightarrow> jsstring \<Rightarrow> AIProvider
    \<Rightarrow> jsstring \<Rightarrow> options \<Rightarrow> jsstring \<Rightarrow> service \<Rightarrow> (AIError + AIResponse) \<times> service" where
  "try_generate backend clock provider aiProvider prompt opts cacheKey s =
     (case getModelForProvider provider (provider_model aiProvider) of
        Inl e \<Rightarrow> (Inl (generation_failed provider (message e)), s)
      | Inr handle \<Rightarrow>
         (let args = \<lparr>arg_model = handle, arg_prompt = prompt,
                       arg_temperature = temperature_or_default opts,
                       arg_maxOutputTokens = maxTokens_or opts DEFAULT_MAX_TOKENS\<rparr>;
              s1 = s\<lparr>trace := trace s @ [BackendCalled args]\<rparr>
          in case backend of
               Inl error \<Rightarrow> (Inl (generation_failed provider (message_of error)), s1)
             | Inr result \<Rightarrow>
                (let response = build_response clock aiProvider result
                 in (Inr response,
                     s1\<lparr>cache := CacheService_set cacheKey response (cache s1)\<rparr>))))"

definition generateWebsite :: "providers \<Rightarrow> (jsstring \<Rightarrow> jsstring) \<Rightarrow> thrown + completion
    \<Rightarrow> clock \<Rightarrow> AIRequest \<Rightarrow> service \<Rightarrow> (AIError + AIResponse) \<times> service" where
  "generateWebsite ps generatePrompt backend clock request s =
     (case resolve_provider ps request of
        Inl e \<Rightarrow> (Inl e, s)
      | Inr provider \<Rightarrow>
         (let opts = resolve_options request;
              cacheKey = generateCacheKey (request_url request) provider (JObj opts);
              cached = fst (CacheService_get cacheKey (cache s));
              s1 = s\<lparr>cache := snd (CacheService_get cacheKey (cache s))\<rparr>
          in case cached of
               Some response \<Rightarrow> (Inr response, s1)
             | None \<Rightarrow>
                (let s2 = s1\<lparr>trace := trace s1 @ [Validated provider]\<rparr> in
                 case validateProvider ps provider of
                   Inl e \<Rightarrow> (Inl e, s2)
                 | Inr aiProvider \<Rightarrow>
                    (let prompt = generatePrompt (request_url request);
                         s3 = s2\<lparr>trace := trace s2 @ [PromptBuilt (request_url request)]\<rparr>
                     in try_generate backend clock provider aiProvider prompt opts cacheKey s3))))"

section \<open>StreamMultiplexer: \<^verbatim>\<open>src/main/services/streaming-service.ts\<close>\<close>

text \<open>
  An asynchronous iterable, as a \<^verbatim>\<open>for await\<close> loop sees it: it ends, or the iteration
  raises, or it delivers a value and goes on.
\<close>

datatype 'a async_iter = Done | Raise thrown | Yield 'a "'a async_iter"

text \<open>\<^verbatim>\<open>chunk.totalUsage\<close> of the \<^verbatim>\<open>finish\<close> part: each total is a number or missing.\<close>

record usage =
  usage_inputTokens :: "int option"
  usage_outputTokens :: "int option"
  usage_totalTokens :: "int option"

text \<open>The parts of \<^verbatim>\<open>stream.fullStream\<close> by their \<^verbatim>\<open>type\<close>; \<open>OtherPart\<close> is any other tag.\<close>

datatype full_part =
    TextDelta jsstring
  | Finish "usage option"
  | ErrorPart
  | OtherPart

record stream_result =
  fullStream :: "full_part async_iter"
  textStream :: "jsstring async_iter"

record chunk_metadata =
  tokensUsed :: int
  inputTokens :: int
  outputTokens :: int
  responseTime :: int
  tokenSpeed :: rat

record AIStreamChunk =
  content :: jsstring
  chunk_done :: bool
  metadata :: chunk_metadata

text \<open>
  The local variables of \<^verbatim>\<open>streamWebsite\<close>. \<open>tick\<close> counts the calls of \<^verbatim>\<open>Date.now()\<close>
  made so far.
\<close>

record locals =
  startTime :: int
  totalTokens :: int
  var_inputTokens :: int
  var_outputTokens :: int
  chunkCount :: nat
  hasReceivedContent :: bool
  lastChunkTime :: int
  lastOutputTokens :: int
  totalSpeedMeasurements :: nat
  cumulativeSpeed :: rat
  tick :: nat

text \<open>\<^verbatim>\<open>Math.ceil(s.length / 4)\<close>\<close>

definition ceil_quarter :: "jsstring \<Rightarrow> int" where
  "ceil_quarter s = \<lceil>rat_of_nat (length s) / 4\<rceil>"

text \<open>\<^verbatim>\<open>total || fallback\<close> for a total that may be missing: zero is falsy too.\<close>

fun or_else :: "int option \<Rightarrow> int \<Rightarrow> int" where
  "or_else None d = d"
| "or_else (Some n) d = (if n = 0 then d else n)"

text \<open>
  The body of \<^verbatim>\<open>if (textDelta.length > 0) { ... }\<close>, the same statements in the loop over
  \<^verbatim>\<open>fullStream\<close> (lines 164-205) and in the loop over \<^verbatim>\<open>textStream\<close> (lines 229-269):
  the new variables and the chunk that is yielded. An empty delta changes nothing and
  yields nothing.
\<close>

definition on_delta :: "clock \<Rightarrow> jsstring \<Rightarrow> locals \<Rightarrow> locals \<times> AIStreamChunk list" where
  "on_delta clock textDelta v =
     (if length textDelta > 0 then
        let deltaTokens = ceil_quarter textDelta;
            outputTokens1 = var_outputTokens v + deltaTokens;
            totalTokens1 = var_inputTokens v + outputTokens1;
            currentTime = clock (tick v);
            timeSinceLastChunk = rat_of_int (currentTime - lastChunkTime v) / 1000;
            tokensSinceLastChunk = outputTokens1 - lastOutputTokens v;
            speed = (if timeSinceLastChunk > 0
                     then rat_of_int tokensSinceLastChunk / timeSinceLastChunk else 0);
            v1 = v\<lparr>hasReceivedContent := True,
                     var_outputTokens := outputTokens1,
                     totalTokens := totalTokens1,
                     totalSpeedMeasurements :=
                       (if speed > 0 then totalSpeedMeasurements v + 1
                        else totalSpeedMeasurements v),
                     cumulativeSpeed :=
                       (if speed > 0 then cumulativeSpeed v + speed else cumulativeSpeed v),
                     lastChunkTime := currentTime,
                     lastOutputTokens := outputTokens1,
                     tick := tick v + 2\<rparr>
        in (v1, [\<lparr>content = textDelta, chunk_done = False,
                   metadata = \<lparr>tokensUsed = totalTokens1, inputTokens = var_inputTokens v,
                               outputTokens = outputTokens1,
                               responseTime = clock (tick v + 1) - startTime v,
                               tokenSpeed = speed\<rparr>\<rparr>])
      else (v, []))"

text \<open>The \<^verbatim>\<open>finish\<close> branch: totals of the provider replace the estimates.\<close>

definition on_finish :: "usage option \<Rightarrow> locals \<Rightarrow> locals" where
  "on_finish u v =
     (case u of
        None \<Rightarrow> v
      | Some totalUsage \<Rightarrow>
          let inputTokens1 = or_else (usage_inputTokens totalUsage) (var_inputTokens v);
              outputTokens1 = or_else (usage_outputTokens totalUsage) (var_outputTokens v);
              totalTokens1 = or_else (usage_totalTokens totalUsage) (inputTokens1 + outputTokens1)
          in v\<lparr>var_inputTokens := inputTokens1, var_outputTokens := outputTokens1,
                totalTokens := totalTokens1\<rparr>)"

text \<open>
  \<^verbatim>\<open>for await (const chunk of stream.fullStream)\<close>: the variables at the end, the chunks
  yielded, and what the loop threw, if it did. \<^verbatim>\<open>finish\<close> leaves the loop, an \<^verbatim>\<open>error\<close>
  part throws an \<^verbatim>\<open>AIError\<close>, any other tag is skipped.
\<close>

fun consume_fullStream :: "clock \<Rightarrow> full_part async_iter \<Rightarrow> locals
    \<Rightarrow> locals \<times> AIStreamChunk list \<times> thrown option" where
  "consume_fullStream clock Done v = (v, [], None)"
| "consume_fullStream clock (Raise e) v = (v, [], Some e)"
| "consume_fullStream clock (Yield part rest) v =
     (let v1 = v\<lparr>chunkCount := chunkCount v + 1\<rparr> in
      case part of
        TextDelta text \<Rightarrow>
          (let (v2, out) = on_delta clock text v1;
               (v3, outs, r) = consume_fullStream clock rest v2
           in (v3, out @ outs, r))
      | Finish u \<Rightarrow> (on_finish u v1, [], None)
      | ErrorPart \<Rightarrow>
          (v1, [], Some (ErrorObject (js ''An error occurred while generating content.'')))
      | OtherPart \<Rightarrow> consume_fullStream clock rest v1)"

text \<open>\<^verbatim>\<open>for await (const chunk of stream.textStream)\<close>, the loop of the \<^verbatim>\<open>catch\<close> block.\<close>

fun consume_textStream :: "clock \<Rightarrow> jsstring async_iter \<Rightarrow> locals
    \<Rightarrow> locals \<times> AIStreamChunk list \<times> thrown option" where
  "consume_textStream clock Done v = (v, [], None)"
| "consume_textStream clock (Raise e) v = (v, [], Some e)"
| "consume_textStream clock (Yield text rest) v =
     (let v1 = v\<lparr>chunkCount := chunkCount v + 1\<rparr>;
          (v2, out) = on_delta clock text v1;
          (v3, outs, r) = consume_textStream clock rest v2
      in (v3, out @ outs, r))"

text \<open>How a run of the generator ends.\<close>

datatype outcome = Completed | Raised AIError

text \<open>The last chunk, lines 285-312: the mean of the positive speeds, or 0.\<close>

definition final_chunk :: "clock \<Rightarrow> locals \<Rightarrow> AIStreamChunk" where
  "final_chunk clock v =
     (let averageTokenSpeed =
            (if totalSpeedMeasurements v > 0
             then cumulativeSpeed v / rat_of_nat (totalSpeedMeasurements v) else 0)
      in \<lparr>content = [], chunk_done = True,
          metadata = \<lparr>tokensUsed = totalTokens v, inputTokens = var_inputTokens v,
                      outputTokens = var_outputTokens v,
                      responseTime = clock (tick v + 1) - startTime v,
                      tokenSpeed = averageTokenSpeed\<rparr>\<rparr>)"

text \<open>
  The variables as lines 68-77 and 102 set them: \<^verbatim>\<open>inputTokens\<close> starts as the estimate
  \<^verbatim>\<open>Math.ceil(prompt.length / 4)\<close>. The first call of \<^verbatim>\<open>Date.now()\<close> is the one of the
  request id, the second is \<^verbatim>\<open>startTime\<close>.
\<close>

definition initial_locals :: "clock \<Rightarrow> jsstring \<Rightarrow> locals" where
  "initial_locals clock prompt =
     \<lparr>startTime = clock 1, totalTokens = 0,
      var_inputTokens = ceil_quarter prompt, var_outputTokens = 0,
      chunkCount = 0, hasReceivedContent = False, lastChunkTime = clock 1,
      lastOutputTokens = 0, totalSpeedMeasurements = 0, cumulativeSpeed = 0,
      tick = 2\<rparr>"

text \<open>
  \<^verbatim>\<open>StreamingService.streamWebsite(url, provider, prompt, options)\<close>: the chunks the
  generator yields, in order, and how it ends. The registry, the clock and \<open>stream\<close>, the
  object that the backend call \<^verbatim>\<open>streamText({model, prompt, temperature, maxOutputTokens})\<close>
  returns for this request, are inputs; the options reach the backend only.
  Whatever is thrown inside the outer \<^verbatim>\<open>try\<close> (by \<^verbatim>\<open>getModelForProvider\<close>, or by the loop
  over \<^verbatim>\<open>textStream\<close>) is wrapped by the outer \<^verbatim>\<open>catch\<close>; whatever the loop over
  \<^verbatim>\<open>fullStream\<close> throws is caught by the inner \<^verbatim>\<open>catch\<close>, which runs the second loop.
\<close>

definition streamWebsite :: "providers \<Rightarrow> stream_result \<Rightarrow> clock
    \<Rightarrow> jsstring \<Rightarrow> jsstring \<Rightarrow> jsstring \<Rightarrow> options \<Rightarrow> AIStreamChunk list \<times> outcome" where
  "streamWebsite ps stream clock url provider prompt opts =
     (if \<not> hasProviders ps
      then ([], Raised \<lparr>message = js ''No AI providers configured. Please set up API keys.'',
                        code = API_KEY_MISSING, error_provider = None\<rparr>)
      else case validateProvider ps provider of
        Inl e \<Rightarrow> ([], Raised e)
      | Inr aiProvider \<Rightarrow>
         (case getModelForProvider provider (provider_model aiProvider) of
            Inl e \<Rightarrow> ([], Raised \<lparr>message = js ''Failed to stream content: '' @ message e,
                                   code = CONTENT_GENERATION_FAILED,
                                   error_provider = Some provider\<rparr>)
          | Inr handle \<Rightarrow>
             (let v0 = initial_locals clock prompt;
                  (v1, outs1, r1) = consume_fullStream clock (fullStream stream) v0;
                  (v2, outs2, r2) =
                     (case r1 of
                        None \<Rightarrow> (v1, [], None)
                      | Some streamError \<Rightarrow> consume_textStream clock (textStream stream) v1)
              in case r2 of
                   None \<Rightarrow> (outs1 @ outs2 @ [final_chunk clock v2], Completed)
                 | Some error \<Rightarrow>
                     (outs1 @ outs2,
                      Raised \<lparr>message = js ''Failed to stream content: '' @ message_of error,
                              code = CONTENT_GENERATION_FAILED,
                              error_provider = Some provider\<rparr>))))"

subsection \<open>Vocabulary for the properties of a stream\<close>

text \<open>The positive speeds that a list of chunks reports, and the mean of a list.\<close>

definition positive_speeds :: "AIStreamChunk list \<Rightarrow> rat list" where
  "positive_speeds cs = filter (\<lambda>s. s > 0) (map (\<lambda>c. tokenSpeed (metadata c)) cs)"


text \<open>The sums \<open>a + x\<^sub>1\<close>, \<open>a + x\<^sub>1 + x\<^sub>2\<close>, ... of a list.\<close>

fun running_sums :: "int \<Rightarrow> int list \<Rightarrow> int list" where
  "running_sums a [] = []"
| "running_sums a (x # xs) = (a + x) # running_sums (a + x) xs"

text \<open>
  What the loop over \<^verbatim>\<open>fullStream\<close> meets: the text deltas it reads before it stops, the
  \<^verbatim>\<open>finish\<close> part it stops at (with its usage, if any), and the error with which the
  iteration itself fails, before any \<^verbatim>\<open>finish\<close> or \<^verbatim>\<open>error\<close> part.
\<close>

fun full_texts :: "full_part async_iter \<Rightarrow> jsstring list" where
  "full_texts (Yield (TextDelta t) rest) = t # full_texts rest"
| "full_texts (Yield OtherPart rest) = full_texts rest"
| "full_texts _ = []"

fun finish_of :: "full_part async_iter \<Rightarrow> usage option option" where
  "finish_of (Yield (Finish u) rest) = Some u"
| "finish_of (Yield (TextDelta t) rest) = finish_of rest"
| "finish_of (Yield OtherPart rest) = finish_of rest"
| "finish_of _ = None"

fun full_raises :: "full_part async_iter \<Rightarrow> thrown option" where
  "full_raises (Raise e) = Some e"
| "full_raises (Yield (TextDelta t) rest) = full_raises rest"
| "full_raises (Yield OtherPart rest) = full_raises rest"
| "full_raises _ = None"

text \<open>
  What the first loop throws: the error of the iteration, or the \<^verbatim>\<open>AIError\<close> that the
  loop itself raises at an \<^verbatim>\<open>error\<close> part.
\<close>

fun full_thrown :: "full_part async_iter \<Rightarrow> thrown option" where
  "full_thrown (Raise e) = Some e"
| "full_thrown (Yield ErrorPart rest) =
     Some (ErrorObject (js ''An error occurred while generating content.''))"
| "full_thrown (Yield (TextDelta t) rest) = full_thrown rest"
| "full_thrown (Yield OtherPart rest) = full_thrown rest"
| "full_thrown _ = None"

text \<open>The same for \<^verbatim>\<open>textStream\<close>: its chunks, and the error it ends with, if it does.\<close>

fun text_texts :: "jsstring async_iter \<Rightarrow> jsstring list" where
  "text_texts (Yield t rest) = t # text_texts rest"
| "text_texts _ = []"

fun text_raises :: "jsstring async_iter \<Rightarrow> thrown option" where
  "text_raises (Raise e) = Some e"
| "text_raises (Yield t rest) = text_raises rest"
| "text_raises Done = None"

text \<open>The text deltas that a run reads: those of the first loop, then, if that loop threw,
  those of the second.\<close>

definition deltas_read :: "stream_result \<Rightarrow> jsstring list" where
  "deltas_read stream =
     full_texts (fullStream stream) @
     (case full_thrown (fullStream stream) of
        None \<Rightarrow> []
      | Some e \<Rightarrow> text_texts (textStream stream))"

text \<open>
  The provider passes the checks made before the stream is opened: the registry is not
  empty, the provider is registered with a key, and it is one of the three backends.
\<close>

definition provider_ready :: "providers \<Rightarrow> jsstring \<Rightarrow> bool" where
  "provider_ready ps provider \<longleftrightarrow>
     hasProviders ps \<and>
     (case validateProvider ps provider of
        Inl e \<Rightarrow> False
      | Inr aiProvider \<Rightarrow>
          (case getModelForProvider provider (provider_model aiProvider) of
             Inl e \<Rightarrow> False
           | Inr handle \<Rightarrow> True))"

text \<open>
  What a loop does to the variables, for the chunks \<open>out\<close> it yields from the texts it
  reads: none is terminal, each reports the input estimate, their contents are the
  non-empty texts, and their output counts are the running sums of the estimates
  (\<open>yields\<close>); the positive speeds are added up and counted (\<open>measured\<close>); the token
  counts are the estimates (\<open>estimated\<close>), or, after a \<^verbatim>\<open>finish\<close> part with usage, the
  totals of the provider where they are not falsy (\<open>after_full\<close>).
\<close>

definition yields :: "locals \<Rightarrow> AIStreamChunk list \<Rightarrow> jsstring list \<Rightarrow> bool" where
  "yields v out texts \<longleftrightarrow>
     (\<forall>c\<in>set out. \<not> chunk_done c \<and> inputTokens (metadata c) = var_inputTokens v)
     \<and> map content out = filter (\<lambda>t. t \<noteq> []) texts
     \<and> map (\<lambda>c. outputTokens (metadata c)) out
         = running_sums (var_outputTokens v) (map (\<lambda>c. ceil_quarter (content c)) out)"

definition measured :: "locals \<Rightarrow> AIStreamChunk list \<Rightarrow> locals \<Rightarrow> bool" where
  "measured v out v' \<longleftrightarrow>
     cumulativeSpeed v' = cumulativeSpeed v + sum_list (positive_speeds out)
     \<and> totalSpeedMeasurements v' = totalSpeedMeasurements v + length (positive_speeds out)"

definition estimated :: "locals \<Rightarrow> AIStreamChunk list \<Rightarrow> locals \<Rightarrow> bool" where
  "estimated v out v' \<longleftrightarrow>
     var_inputTokens v' = var_inputTokens v
     \<and> var_outputTokens v' = var_outputTokens v + sum_list (map (\<lambda>c. ceil_quarter (content c)) out)"

definition after_full :: "usage option option \<Rightarrow> locals \<Rightarrow> AIStreamChunk list \<Rightarrow> locals \<Rightarrow> bool" where
  "after_full fin v out v' \<longleftrightarrow>
     (case fin of
        Some (Some u) \<Rightarrow>
          var_inputTokens v' = or_else (usage_inputTokens u) (var_inputTokens v)
          \<and> var_outputTokens v' = or_else (usage_outputTokens u)
               (var_outputTokens v + sum_list (map (\<lambda>c. ceil_quarter (content c)) out))
          \<and> totalTokens v' = or_else (usage_totalTokens u) (var_inputTokens v' + var_outputTokens v')
      | _ \<Rightarrow> estimated v out v')"

text \<open>A registry and a clock for the examples: one provider, one second per reading.\<close>

definition example_providers :: providers where
  "example_providers = initializeProviders
     \<lparr>OPENAI_API_KEY = Some (js ''sk-test''), ANTHROPIC_API_KEY = None, GOOGLE_API_KEY = None\<rparr>"

definition example_clock :: clock where
  "example_clock n = 250 * int (n * n)"

text \<open>
  The run of the example: a prompt of 400 characters and deltas of 40, 80 and 0
  characters. With \<open>example_clock\<close> the stream starts at 250 ms, the first delta is read
  at 1000 ms and the second at 4000 ms.
\<close>

definition example_prompt :: jsstring where
  "example_prompt = replicate 400 (of_char CHR ''p'')"



definition zero_usage :: usage where
  "zero_usage = \<lparr>usage_inputTokens = Some 120, usage_outputTokens = Some 0,
                  usage_totalTokens = Some 120\<rparr>"

definition zero_usage_stream :: stream_result where
  "zero_usage_stream =
     \<lparr>fullStream = Yield (TextDelta (replicate 40 (of_char CHR ''a'')))
                    (Yield (Finish (Some zero_usage)) Done),
      textStream = Done\<rparr>"

definition failing_stream :: stream_result where
  "failing_stream =
     \<lparr>fullStream = Yield (TextDelta (js ''<html>'')) (Raise (ErrorObject (js ''socket closed''))),
      textStream = Yield (js ''<html>'') (Yield (js ''</html>'') Done)\<rparr>"

definition doubly_failing_stream :: stream_result where
  "doubly_failing_stream =
     \<lparr>fullStream = Yield (TextDelta (js ''<html>'')) (Raise (ErrorObject (js ''socket closed''))),
      textStream = Yield (js ''<html>'') (Raise (ErrorObject (js ''socket closed'')))\<rparr>"

definition run_example :: "stream_result \<Rightarrow> AIStreamChunk list \<times> outcome" where
  "run_example stream = streamWebsite example_providers stream example_clock
     (js ''example.com'') (js ''openai'') example_prompt []"

section \<open>IncrementalContentExtractor: \<^verbatim>\<open>BrowserUI.parseAndUpdateContent\<close>\<close>

subsection \<open>String methods\<close>

text \<open>\<^verbatim>\<open>String.prototype.startsWith\<close> and \<^verbatim>\<open>includes\<close>: exact comparison of code units.\<close>

fun startsWith :: "jsstring \<Rightarrow> jsstring \<Rightarrow> bool" where
  "startsWith [] s = True"
| "startsWith (p # ps) [] = False"
| "startsWith (p # ps) (c # cs) = (p = c \<and> startsWith ps cs)"

fun String_includes :: "jsstring \<Rightarrow> jsstring \<Rightarrow> bool" where
  "String_includes t [] = startsWith t []"
| "String_includes t (c # cs) = (startsWith t (c # cs) \<or> String_includes t cs)"

text \<open>
  \<^verbatim>\<open>String.prototype.trim\<close> removes white space and line terminators at both ends: tab,
  line feed, vertical tab, form feed, carriage return, space, no-break space, U+1680,
  U+2000 to U+200A, U+2028, U+2029, U+202F, U+205F, U+3000 and U+FEFF.
\<close>

definition is_space :: "nat \<Rightarrow> bool" where
  "is_space c \<longleftrightarrow>
     (9 \<le> c \<and> c \<le> 13) \<or> c = 32 \<or> c = 160 \<or> c = 5760 \<or> (8192 \<le> c \<and> c \<le> 8202)
     \<or> c = 8232 \<or> c = 8233 \<or> c = 8239 \<or> c = 8287 \<or> c = 12288 \<or> c = 65279"

definition trim :: "jsstring \<Rightarrow> jsstring" where
  "trim s = rev (dropWhile is_space (rev (dropWhile is_space s)))"

text \<open>\<^verbatim>\<open>s.split('\n')\<close> and \<^verbatim>\<open>lines.join('\n')\<close>; the line feed is the code unit 10.\<close>

fun split_lines :: "jsstring \<Rightarrow> jsstring list" where
  "split_lines [] = [[]]"
| "split_lines (c # cs) =
     (if c = 10 then [] # split_lines cs
      else (case split_lines cs of [] \<Rightarrow> [[c]] | l # ls \<Rightarrow> (c # l) # ls))"

fun join_lines :: "jsstring list \<Rightarrow> jsstring" where
  "join_lines [] = []"
| "join_lines [l] = l"
| "join_lines (l # m # ls) = l @ 10 # join_lines (m # ls)"

subsection \<open>The regular expressions\<close>

text \<open>
  Every regular expression of the extractor has the shape \<^verbatim>\<open>/A[\s\S]*?B/i\<close>, with or
  without a group around the middle part: a literal \<open>A\<close>, as few characters of any kind
  as possible, a literal \<open>B\<close>, letters compared without regard to case. Both literals are
  ASCII, and for an ASCII character the comparison of \<^verbatim>\<open>/i\<close> (\<^verbatim>\<open>Canonicalize\<close>, which never
  maps a character outside ASCII to one inside) is the comparison after mapping \<open>a\<close> to
  \<open>z\<close> to upper case.
\<close>

definition canonicalize :: "nat \<Rightarrow> nat" where
  "canonicalize c = (if 97 \<le> c \<and> c \<le> 122 then c - 32 else c)"

fun matches_at :: "jsstring \<Rightarrow> jsstring \<Rightarrow> bool" where
  "matches_at [] s = True"
| "matches_at (p # ps) [] = False"
| "matches_at (p # ps) (c # cs) = (canonicalize p = canonicalize c \<and> matches_at ps cs)"

text \<open>
  The lazy middle part: \<open>B\<close> is tried at the current position first, and one more
  character is consumed only when it does not match there. The result is the text
  consumed, the text matched by \<open>B\<close> and the rest of the subject.
\<close>

fun lazy_until :: "jsstring \<Rightarrow> jsstring \<Rightarrow> (jsstring \<times> jsstring \<times> jsstring) option" where
  "lazy_until B [] = (if matches_at B [] then Some ([], [], []) else None)"
| "lazy_until B (c # cs) =
     (if matches_at B (c # cs)
      then Some ([], take (length B) (c # cs), drop (length B) (c # cs))
      else (case lazy_until B cs of
              None \<Rightarrow> None
            | Some (g, m, r) \<Rightarrow> Some (c # g, m, r)))"

text \<open>A match: the text before it, \<^verbatim>\<open>match[0]\<close>, \<^verbatim>\<open>match[1]\<close> and the text after it.\<close>

record regex_match =
  match_before :: jsstring
  match_whole :: jsstring
  match_group :: jsstring
  match_after :: jsstring

text \<open>The attempt to match at the start of the subject.\<close>

definition exec_here :: "jsstring \<Rightarrow> jsstring \<Rightarrow> jsstring \<Rightarrow> regex_match option" where
  "exec_here A B s =
     (if matches_at A s
      then (case lazy_until B (drop (length A) s) of
              None \<Rightarrow> None
            | Some (g, m, r) \<Rightarrow>
                Some \<lparr>match_before = [], match_whole = take (length A) s @ g @ m,
                      match_group = g, match_after = r\<rparr>)
      else None)"

text \<open>
  \<^verbatim>\<open>RegExp.prototype.exec\<close> without the \<^verbatim>\<open>g\<close> flag, which is what \<^verbatim>\<open>s.match(re)\<close> calls:
  the attempt is made at position 0, then 1, and so on, and the first success is the
  match.
\<close>

fun regex_exec :: "jsstring \<Rightarrow> jsstring \<Rightarrow> jsstring \<Rightarrow> regex_match option" where
  "regex_exec A B [] = exec_here A B []"
| "regex_exec A B (c # cs) =
     (case exec_here A B (c # cs) of
        Some m \<Rightarrow> Some m
      | None \<Rightarrow>
          (case regex_exec A B cs of
             None \<Rightarrow> None
           | Some m \<Rightarrow> Some (m\<lparr>match_before := c # match_before m\<rparr>)))"

text \<open>
  \<^verbatim>\<open>s.replace(re, '')\<close> with the \<^verbatim>\<open>g\<close> flag: every match is removed, the search going
  on behind it. The subject is walked position by position, as the attempts of the
  engine are; \<open>skip\<close> is the number of characters of the current match that are still to
  be dropped. An empty match removes nothing and the search moves on by one character.
\<close>

fun remove_from :: "jsstring \<Rightarrow> jsstring \<Rightarrow> nat \<Rightarrow> jsstring \<Rightarrow> jsstring" where
  "remove_from A B skip [] = []"
| "remove_from A B (Suc skip) (c # cs) = remove_from A B skip cs"
| "remove_from A B 0 (c # cs) =
     (case exec_here A B (c # cs) of
        None \<Rightarrow> c # remove_from A B 0 cs
      | Some m \<Rightarrow>
          if match_whole m = [] then c # remove_from A B 0 cs
          else remove_from A B (length (match_whole m) - 1) cs)"

definition remove_matches :: "jsstring \<Rightarrow> jsstring \<Rightarrow> jsstring \<Rightarrow> jsstring" where
  "remove_matches A B s = remove_from A B 0 s"

subsection \<open>The fallback: \<^verbatim>\<open>extractHTMLFromContent\<close>\<close>

text \<open>The index of the first element that satisfies a test: a \<^verbatim>\<open>for\<close> loop with \<^verbatim>\<open>break\<close>.\<close>

fun findIndex :: "('a \<Rightarrow> bool) \<Rightarrow> 'a list \<Rightarrow> nat option" where
  "findIndex P [] = None"
| "findIndex P (x # xs) =
     (if P x then Some 0 else (case findIndex P xs of None \<Rightarrow> None | Some i \<Rightarrow> Some (Suc i)))"

text \<open>The test of lines 633-637 on a trimmed line.\<close>

definition starts_html :: "jsstring \<Rightarrow> bool" where
  "starts_html line \<longleftrightarrow>
     startsWith (js ''<!DOCTYPE'') line \<or> startsWith (js ''<html'') line
     \<or> (startsWith (js ''<'') line \<and> String_includes (js ''html'') line
         \<and> String_includes (js ''>'') line)"

text \<open>
  Lines 660-674: the closing tags that are added when no line holds \<^verbatim>\<open></html>\<close>. Both
  tests look at the text before anything is added.
\<close>

definition add_closing_tags :: "jsstring \<Rightarrow> jsstring" where
  "add_closing_tags extractedHtml =
     (let needsBodyClose = (String_includes (js ''<body'') extractedHtml
                            \<and> \<not> String_includes (js ''</body>'') extractedHtml);
          needsHtmlClose = ((String_includes (js ''<html'') extractedHtml
                             \<or> String_includes (js ''<!DOCTYPE'') extractedHtml)
                            \<and> \<not> String_includes (js ''</html>'') extractedHtml);
          e1 = (if needsBodyClose then extractedHtml @ 10 # js ''</body>'' else extractedHtml);
          e2 = (if needsHtmlClose then e1 @ 10 # js ''</html>'' else e1)
      in e2)"

text \<open>
  Lines 625-685, the scan of the lines. The second loop runs from the last line back
  to the first and stops at the first line that holds \<^verbatim>\<open></html>\<close>: it is the first such
  line of the reversed list, at \<open>j\<close> lines from the end.
\<close>

definition line_scan :: "jsstring \<Rightarrow> jsstring" where
  "line_scan cleanedContent =
     (let lines = split_lines cleanedContent in
      case findIndex (\<lambda>l. starts_html (trim l)) lines of
        None \<Rightarrow> []
      | Some htmlStartIndex \<Rightarrow>
          (let htmlLines = drop htmlStartIndex lines;
               endScan = findIndex (\<lambda>l. String_includes (js ''</html>'') (trim l)) (rev htmlLines);
               foundEndTag = (endScan \<noteq> None);
               htmlEndIndex = (case endScan of
                                None \<Rightarrow> length htmlLines
                              | Some j \<Rightarrow> length htmlLines - j);
               extractedHtml = join_lines (take htmlEndIndex htmlLines)
           in if \<not> foundEndTag \<and> trim extractedHtml \<noteq> []
              then add_closing_tags extractedHtml
              else extractedHtml))"

text \<open>The fenced blocks of lines 610-623; a fence is three grave accents (96).\<close>

definition fence :: jsstring where
  "fence = [96, 96, 96]"

definition extractHTMLFromContent :: "jsstring \<Rightarrow> jsstring" where
  "extractHTMLFromContent rawContent =
     (let cleaned1 = remove_matches (js ''<thinking>'') (js ''</thinking>'') rawContent;
          cleaned2 = remove_matches (js ''<reasoning>'') (js ''</reasoning>'') cleaned1;
          cleanedContent = trim cleaned2
      in case regex_exec (js ''<!DOCTYPE html>'') (js ''</html>'') cleanedContent of
           Some htmlMatch \<Rightarrow> match_whole htmlMatch
         | None \<Rightarrow>
        (case regex_exec (js ''<html'') (js ''</html>'') cleanedContent of
           Some htmlTagMatch \<Rightarrow> match_whole htmlTagMatch
         | None \<Rightarrow>
        (case regex_exec (fence @ js ''html'') fence cleanedContent of
           Some codeBlockMatch \<Rightarrow> trim (match_group codeBlockMatch)
         | None \<Rightarrow>
        (case regex_exec fence fence cleanedContent of
           Some genericCodeMatch \<Rightarrow>
             (let blockContent = trim (match_group genericCodeMatch)
              in if String_includes (js ''<!DOCTYPE html>'') blockContent
                    \<or> String_includes (js ''<html'') blockContent
                 then blockContent
                 else line_scan cleanedContent)
         | None \<Rightarrow> line_scan cleanedContent))))"

subsection \<open>\<^verbatim>\<open>parseAndUpdateContent\<close>\<close>

text \<open>The three fields of \<^verbatim>\<open>BrowserUI\<close> that the extraction reads and writes.\<close>

record BrowserUI =
  streamContent :: jsstring
  thoughtContent :: jsstring
  codeContent :: jsstring

text \<open>The labels of the reasoning: the emoji U+1F914 and U+1F4A1 are two code units each.\<close>

definition thinking_label :: jsstring where
  "thinking_label = [55358, 56596] @ js '' **Thinking**''"

definition reasoning_label :: jsstring where
  "reasoning_label = [55357, 56481] @ js '' **Reasoning**''"

text \<open>
  \<^verbatim>\<open>parseAndUpdateContent()\<close>, lines 545-574, with the function that the \<^verbatim>\<open>else\<close> branch
  calls as a parameter, so that a property can say that the branch taken does not
  depend on it. In the source the function is \<^verbatim>\<open>extractHTMLFromContent\<close>.
\<close>

definition parseAndUpdateContent_with :: "(jsstring \<Rightarrow> jsstring) \<Rightarrow> BrowserUI \<Rightarrow> BrowserUI" where
  "parseAndUpdateContent_with fallback ui =
     (let thinkingMatch = regex_exec (js ''<thinking>'') (js ''</thinking>'') (streamContent ui);
          reasoningMatch = regex_exec (js ''<reasoning>'') (js ''</reasoning>'') (streamContent ui);
          codeMatch = regex_exec (js ''<code>'') (js ''</code>'') (streamContent ui);
          combined1 = (case thinkingMatch of
                         None \<Rightarrow> []
                       | Some m \<Rightarrow> thinking_label @ 10 # trim (match_group m) @ [10, 10]);
          combinedThought = (case reasoningMatch of
                               None \<Rightarrow> combined1
                             | Some m \<Rightarrow> combined1 @ reasoning_label @ 10 # trim (match_group m));
          ui1 = (if combinedThought \<noteq> [] then ui\<lparr>thoughtContent := combinedThought\<rparr> else ui)
      in case codeMatch of
           Some m \<Rightarrow> ui1\<lparr>codeContent := trim (match_group m)\<rparr>
         | None \<Rightarrow> ui1\<lparr>codeContent := fallback (streamContent ui)\<rparr>)"

definition parseAndUpdateContent :: "BrowserUI \<Rightarrow> BrowserUI" where
  "parseAndUpdateContent ui = parseAndUpdateContent_with extractHTMLFromContent ui"

subsection \<open>Vocabulary for the properties of the extractor\<close>

text \<open>Two texts that a case-insensitive literal cannot tell apart.\<close>

definition same_tag :: "jsstring \<Rightarrow> jsstring \<Rightarrow> bool" where
  "same_tag t p \<longleftrightarrow> map canonicalize t = map canonicalize p"

text \<open>
  A closed region \<open>A ... B\<close> of a buffer: the texts before it, of the opening tag, between
  the tags, of the closing tag and behind it. It is the first one when no opening tag
  starts before it and no closing tag starts inside it.
\<close>

definition closed_region :: "jsstring \<Rightarrow> jsstring \<Rightarrow> jsstring
    \<Rightarrow> jsstring \<Rightarrow> jsstring \<Rightarrow> jsstring \<Rightarrow> jsstring \<Rightarrow> jsstring \<Rightarrow> bool" where
  "closed_region A B buffer pre opn inner cls post \<longleftrightarrow>
     buffer = pre @ opn @ inner @ cls @ post \<and> same_tag opn A \<and> same_tag cls B"

definition first_region :: "jsstring \<Rightarrow> jsstring \<Rightarrow> jsstring
    \<Rightarrow> jsstring \<Rightarrow> jsstring \<Rightarrow> jsstring \<Rightarrow> jsstring \<Rightarrow> jsstring \<Rightarrow> bool" where
  "first_region A B buffer pre opn inner cls post \<longleftrightarrow>
     closed_region A B buffer pre opn inner cls post
     \<and> (\<forall>i<length pre. \<not> matches_at A (drop i buffer))
     \<and> (\<forall>j<length inner. \<not> matches_at B (drop j (inner @ cls @ post)))"

text \<open>A literal occurs in a text, letters compared without regard to case.\<close>

fun occurs_ci :: "jsstring \<Rightarrow> jsstring \<Rightarrow> bool" where
  "occurs_ci P [] = matches_at P []"
| "occurs_ci P (c # cs) = (matches_at P (c # cs) \<or> occurs_ci P cs)"

text \<open>
  An HTML document that is not terminated, as the text behind a thinking region: once
  trimmed it starts with \<^verbatim>\<open><html\<close> or \<^verbatim>\<open><!DOCTYPE\<close> and holds \<^verbatim>\<open><body\<close>; it holds neither
  \<^verbatim>\<open></body>\<close> nor, in any case, \<^verbatim>\<open></html>\<close>, no fence, and no closing tag of a thinking,
  reasoning or code region.
\<close>

definition unterminated_document :: "jsstring \<Rightarrow> bool" where
  "unterminated_document D \<longleftrightarrow>
     (startsWith (js ''<html'') (trim D) \<or> startsWith (js ''<!DOCTYPE'') (trim D))
     \<and> String_includes (js ''<body'') (trim D)
     \<and> \<not> String_includes (js ''</body>'') D
     \<and> \<not> occurs_ci (js ''</html>'') D
     \<and> \<not> occurs_ci fence D
     \<and> \<not> occurs_ci (js ''</thinking>'') D
     \<and> \<not> occurs_ci (js ''</reasoning>'') D
     \<and> \<not> occurs_ci (js ''</code>'') D"

text \<open>
  Buffers for the examples: a closed \<^verbatim>\<open><code>\<close> region, in mixed case, with unclosed
  HTML before and behind it; and a closed \<^verbatim>\<open><thinking>\<close> region with the text \<open>X\<close>,
  followed by a document \<open>D\<close>.
\<close>

definition code_buffer :: jsstring where
  "code_buffer = js ''<html><body><CODE> <p>x </Code><div>''"

definition thinking_buffer :: "jsstring \<Rightarrow> jsstring \<Rightarrow> jsstring" where
  "thinking_buffer X D = js ''<thinking>'' @ X @ js ''</thinking>'' @ D"

definition fresh_ui :: "jsstring \<Rightarrow> BrowserUI" where
  "fresh_ui buffer = \<lparr>streamContent = buffer, thoughtContent = [], codeContent = []\<rparr>"

text \<open>What every reachable cache satisfies: keys are unique and at most 100.\<close>

definition cache_inv :: "cache \<Rightarrow> bool" where
  "cache_inv c \<longleftrightarrow> distinct (map fst c) \<and> length c \<le> MAX_CACHE_SIZE"

definition example_response :: AIResponse where
  "example_response =
     \<lparr>response_content = js ''<html></html>'', response_provider = js ''openai'',
      response_model = js ''gpt-4o'', response_timestamp = 0,
      response_metadata = \<lparr>response_tokensUsed = None, response_responseTime = 0\<rparr>\<rparr>"

text \<open>
  A request for the examples, its cache key, a service that holds a response under this
  key and has made no call yet, and a registry without any provider.
\<close>

definition example_request :: AIRequest where
  "example_request =
     \<lparr>request_url = js ''example.com'', request_provider = Some (js ''openai''),
      request_options = Some [(js ''maxTokens'', JNum 4000)]\<rparr>"

definition example_key :: jsstring where
  "example_key = js ''example.com:openai:{\"maxTokens\":4000}''"

definition warm_service :: service where
  "warm_service = \<lparr>cache = [(example_key, example_response)], trace = []\<rparr>"

definition cold_service :: service where
  "cold_service = \<lparr>cache = [(js ''other'', example_response)], trace = []\<rparr>"





definition openai_provider :: AIProvider where
  "openai_provider =
     \<lparr>provider_id = js ''openai'', provider_name = js ''OpenAI GPT-4'', apiKey = js ''sk-test'',
      provider_model = js ''gpt-4o'', enabled = True\<rparr>"

definition example_completion :: completion where
  "example_completion =
     \<lparr>completion_text = js ''<code><html></html></code>'', completion_totalTokens = Some 55\<rparr>"

definition no_providers :: providers where
  "no_providers = initializeProviders
     \<lparr>OPENAI_API_KEY = None, ANTHROPIC_API_KEY = Some [], GOOGLE_API_KEY = None\<rparr>"

text \<open>A full cache for the examples: the one-unit keys \<open>[0]\<close>, ..., \<open>[99]\<close>, in this order.\<close>

definition example_entries :: cache where
  "example_entries = map (\<lambda>i. ([i], example_response)) [0..<100]"

section \<open>The cache: insertion-order eviction and the capacity bound\<close>

lemma Map_set_new: "k \<notin> fst ` set c \<Longrightarrow> Map_set k v c = c @ [(k, v)]"
  by (induction c) auto

lemma Map_delete_absent: "k \<notin> fst ` set c \<Longrightarrow> Map_delete k c = c"
  by (induction c) auto

lemma Map_delete_length: "length (Map_delete k c) \<le> length c"
  by (induction c) (auto simp: le_SucI)

lemma Map_delete_keys: "map fst (Map_delete k c) = removeAll k (map fst c)"
  by (induction c) auto

lemma Map_set_length: "length (Map_set k v c) \<le> Suc (length c)"
  by (induction c) auto

lemma Map_set_present: "k \<in> fst ` set c \<Longrightarrow> map fst (Map_set k v c) = map fst c"
  by (induction c) auto

lemma Map_set_keys:
  "map fst (Map_set k v c) = (if k \<in> fst ` set c then map fst c else map fst c @ [k])"
  by (induction c) auto

lemma Map_get_set: "Map_get k' (Map_set k v c) = (if k' = k then Some v else Map_get k' c)"
  by (induction c) auto

lemma Map_get_None: "Map_get k c = None \<longleftrightarrow> k \<notin> fst ` set c"
  by (induction c) auto

lemma Map_get_hd: "c \<noteq> [] \<Longrightarrow> Map_get (fst (hd c)) c = Some (snd (hd c))"
  by (cases c) auto

lemma cache_run_append: "cache_run (xs @ ys) c = cache_run ys (cache_run xs c)"
  by (induction xs arbitrary: c) auto

lemma cache_run_gets: "cache_run (map OpGet rs) c = c"
  by (induction rs) (auto simp: CacheService_get_def)

lemma cache_run_sets:
  "distinct (map fst kvs) \<Longrightarrow> length c + length kvs \<le> MAX_CACHE_SIZE \<Longrightarrow>
   fst ` set c \<inter> fst ` set kvs = {} \<Longrightarrow>
   cache_run (map (\<lambda>(k, v). OpSet k v) kvs) c = c @ kvs"
proof (induction kvs arbitrary: c)
  case Nil
  then show ?case by simp
next
  case (Cons p kvs)
  obtain k v where p: "p = (k, v)" by (cases p)
  have "CacheService_set k v c = c @ [(k, v)]"
    using Cons.prems by (auto simp: CacheService_set_def p Map_set_new MAX_CACHE_SIZE_def)
  moreover have "cache_run (map (\<lambda>(k, v). OpSet k v) kvs) (c @ [(k, v)]) = (c @ [(k, v)]) @ kvs"
    using Cons.prems by (intro Cons.IH) (auto simp: p)
  ultimately show ?case by (simp add: p)
qed

lemma set_full_distinct:
  assumes "distinct (map fst c)" "length c \<ge> MAX_CACHE_SIZE"
  shows "CacheService_set k v c = Map_set k v (tl c)"
proof -
  obtain p ps where c: "c = p # ps" using assms(2) by (cases c) (auto simp: MAX_CACHE_SIZE_def)
  have "Map_delete (fst p) ps = ps" using assms(1) by (intro Map_delete_absent) (auto simp: c)
  then show ?thesis using assms by (auto simp: CacheService_set_def c)
qed

lemma Map_delete_distinct: "distinct (map fst c) \<Longrightarrow> distinct (map fst (Map_delete k c))"
  by (simp add: Map_delete_keys distinct_removeAll)

lemma Map_set_distinct: "distinct (map fst c) \<Longrightarrow> distinct (map fst (Map_set k v c))"
  by (simp add: Map_set_keys)

lemma CacheService_set_inv: "cache_inv c \<Longrightarrow> cache_inv (CacheService_set k v c)"
proof -
  assume inv: "cache_inv c"
  show ?thesis
  proof (cases "length c \<ge> MAX_CACHE_SIZE")
    case True
    then have eq: "CacheService_set k v c = Map_set k v (tl c)"
      using inv by (simp add: set_full_distinct cache_inv_def)
    have "distinct (map fst (tl c))" using inv by (simp add: cache_inv_def distinct_tl map_tl)
    moreover have "length (Map_set k v (tl c)) \<le> Suc (length (tl c))" by (rule Map_set_length)
    moreover have "c \<noteq> []" using True by (auto simp: MAX_CACHE_SIZE_def)
    ultimately show ?thesis using inv unfolding eq cache_inv_def
      by (auto simp: Map_set_distinct)
  next
    case False
    then have "CacheService_set k v c = Map_set k v c" by (simp add: CacheService_set_def)
    moreover have "length (Map_set k v c) \<le> Suc (length c)" by (rule Map_set_length)
    ultimately show ?thesis using inv False by (auto simp: cache_inv_def Map_set_distinct)
  qed
qed

lemma cache_step_inv: "cache_inv c \<Longrightarrow> cache_inv (cache_step x c)"
proof (cases x)
  case (OpSet k v)
  assume "cache_inv c"
  then show ?thesis by (simp add: OpSet CacheService_set_inv)
next
  case (OpDelete k)
  assume "cache_inv c"
  then show ?thesis
    using Map_delete_length [of k c]
    by (auto simp: OpDelete CacheService_delete_def cache_inv_def Map_delete_distinct)
qed (auto simp: CacheService_get_def CacheService_clear_def cache_inv_def)

lemma cache_run_inv: "cache_inv c \<Longrightarrow> cache_inv (cache_run ops c)"
  by (induction ops arbitrary: c) (auto simp: cache_step_inv)

lemma cache_inv_empty: "cache_inv []"
  by (simp add: cache_inv_def)

lemma example_entries_distinct: "distinct (map fst example_entries)"
  by (simp add: example_entries_def comp_def distinct_map inj_on_def)

lemma example_entries_length: "length example_entries = 100"
  by (simp add: example_entries_def)

text \<open>
  Claim C1. A cache that holds its maximum of 100 entries (the result of inserting 100
  distinct keys into an empty cache, which keeps them in insertion order) evicts, on the
  put of a new key, exactly the entry inserted first and appends the new one, whatever
  keys were read in between: reading the first key (a hit) does not save it. Eviction
  is by insertion order, not by access order.
\<close>

theorem fifo_eviction_ignores_reads:
  assumes "distinct (map fst kvs)" and "length kvs = MAX_CACHE_SIZE" and "k \<notin> fst ` set kvs"
  shows "cache_run (map (\<lambda>(k, v). OpSet k v) kvs) [] = kvs
       \<and> fst (CacheService_get (fst (hd kvs)) kvs) = Some (snd (hd kvs))
       \<and> cache_run (map OpGet rs @ [OpSet k v]) kvs = tl kvs @ [(k, v)]
       \<and> \<not> CacheService_has (fst (hd kvs)) (tl kvs @ [(k, v)])"
proof -
  have ne: "kvs \<noteq> []" using assms(2) by (auto simp: MAX_CACHE_SIZE_def)
  have fill: "cache_run (map (\<lambda>(k, v). OpSet k v) kvs) [] = kvs"
    using cache_run_sets [of kvs "[]"] assms by simp
  have hit: "fst (CacheService_get (fst (hd kvs)) kvs) = Some (snd (hd kvs))"
    using ne by (simp add: CacheService_get_def Map_get_hd)
  have "CacheService_set k v kvs = Map_set k v (tl kvs)"
    using assms by (simp add: set_full_distinct)
  moreover have "k \<notin> fst ` set (tl kvs)"
    using assms(3) ne by (cases kvs) auto
  ultimately have put: "cache_run (map OpGet rs @ [OpSet k v]) kvs = tl kvs @ [(k, v)]"
    by (simp add: cache_run_append cache_run_gets Map_set_new)
  have "fst (hd kvs) \<noteq> k" using assms(3) ne by (cases kvs) auto
  moreover have "fst (hd kvs) \<notin> fst ` set (tl kvs)"
    using assms(1) ne by (cases kvs) auto
  ultimately have gone: "\<not> CacheService_has (fst (hd kvs)) (tl kvs @ [(k, v)])"
    by (simp add: CacheService_has_def Map_has_def Map_get_None)
  from fill hit put gone show ?thesis by blast
qed

theorem fifo_eviction_ignores_reads_witness:
  "distinct (map fst example_entries) \<and> length example_entries = MAX_CACHE_SIZE
   \<and> [100] \<notin> fst ` set example_entries
   \<and> cache_run (map (\<lambda>(k, v). OpSet k v) example_entries) [] = example_entries
   \<and> fst (CacheService_get [0] example_entries) = Some example_response
   \<and> cache_run (map OpGet [[0]] @ [OpSet [100] example_response]) example_entries
       = tl example_entries @ [([100], example_response)]
   \<and> \<not> CacheService_has [0] (tl example_entries @ [([100], example_response)])"
proof -
  have d: "distinct (map fst example_entries)" by (rule example_entries_distinct)
  have l: "length example_entries = MAX_CACHE_SIZE"
    by (simp add: example_entries_length MAX_CACHE_SIZE_def)
  have n: "[100] \<notin> fst ` set example_entries"
    by (auto simp: example_entries_def)
  have h: "hd example_entries = ([0], example_response)"
    by (simp add: example_entries_def upt_rec [of 0])
  show ?thesis
    using fifo_eviction_ignores_reads [OF d l n, of "[[0]]" example_response] d l n
    by (simp add: h)
qed

text \<open>
  Claim C10. On a cache that holds 100 entries, \<open>set\<close> first deletes the oldest key and
  then stores the pair in what is left, also when the key is already present: the oldest
  entry is gone afterwards unless it is the key being set, an overwrite of another key
  leaves 99 entries, and no run of operations on a new cache takes the size above 100.
\<close>

theorem set_at_capacity_always_evicts:
  assumes "c = cache_run ops []" and "isFull c"
  shows "getSize c = MAX_CACHE_SIZE
       \<and> CacheService_set k v c = Map_set k v (tl c)
       \<and> (CacheService_has (fst (hd c)) (CacheService_set k v c) \<longleftrightarrow> k = fst (hd c))
       \<and> (CacheService_has k (tl c) \<longrightarrow> getSize (CacheService_set k v c) = MAX_CACHE_SIZE - 1)
       \<and> getSize (cache_run ops' []) \<le> MAX_CACHE_SIZE"
proof -
  have inv: "cache_inv c" using assms(1) by (simp add: cache_run_inv cache_inv_empty)
  then have len: "length c = MAX_CACHE_SIZE"
    using assms(2) by (simp add: cache_inv_def isFull_def)
  then have ne: "c \<noteq> []" by (auto simp: MAX_CACHE_SIZE_def)
  have eq: "CacheService_set k v c = Map_set k v (tl c)"
    using inv len by (simp add: set_full_distinct cache_inv_def)
  have hdtl: "fst (hd c) \<notin> fst ` set (tl c)"
    using inv ne by (cases c) (auto simp: cache_inv_def)
  have gone: "CacheService_has (fst (hd c)) (CacheService_set k v c) \<longleftrightarrow> k = fst (hd c)"
    using hdtl by (auto simp: eq CacheService_has_def Map_has_def Map_get_set Map_get_None)
  have shrink: "CacheService_has k (tl c) \<longrightarrow> getSize (CacheService_set k v c) = MAX_CACHE_SIZE - 1"
  proof
    assume "CacheService_has k (tl c)"
    then have "k \<in> fst ` set (tl c)"
      by (simp add: CacheService_has_def Map_has_def Map_get_None)
    then have "map fst (Map_set k v (tl c)) = map fst (tl c)" by (rule Map_set_present)
    then have "length (Map_set k v (tl c)) = length (tl c)" by (metis length_map)
    then show "getSize (CacheService_set k v c) = MAX_CACHE_SIZE - 1"
      using len by (simp add: eq getSize_def)
  qed
  have "cache_inv (cache_run ops' [])" using cache_inv_empty by (rule cache_run_inv)
  then have bound: "getSize (cache_run ops' []) \<le> MAX_CACHE_SIZE"
    by (simp add: cache_inv_def getSize_def)
  from len eq gone shrink bound show ?thesis by (simp add: getSize_def)
qed

theorem set_at_capacity_always_evicts_witness:
  "example_entries = cache_run (map (\<lambda>(k, v). OpSet k v) example_entries) []
   \<and> isFull example_entries
   \<and> CacheService_has [5] (tl example_entries)
   \<and> getSize (CacheService_set [5] example_response example_entries) = 99
   \<and> \<not> CacheService_has [0] (CacheService_set [5] example_response example_entries)"
proof -
  have d: "distinct (map fst example_entries)" by (rule example_entries_distinct)
  have r: "example_entries = cache_run (map (\<lambda>(k, v). OpSet k v) example_entries) []"
    using cache_run_sets [of example_entries "[]"] d
    by (simp add: example_entries_length MAX_CACHE_SIZE_def)
  have f: "isFull example_entries"
    by (simp add: isFull_def example_entries_length MAX_CACHE_SIZE_def)
  have h: "hd example_entries = ([0], example_response)"
    by (simp add: example_entries_def upt_rec [of 0])
  have t: "tl example_entries = map (\<lambda>i. ([i], example_response)) [1..<100]"
    by (simp add: example_entries_def upt_rec [of 0])
  have p: "CacheService_has [5] (tl example_entries)"
    by (simp add: t CacheService_has_def Map_has_def Map_get_None image_iff)
  note T = set_at_capacity_always_evicts [OF r f, of "[5]" example_response "[OpClear]"]
  from T p have s: "getSize (CacheService_set [5] example_response example_entries) = MAX_CACHE_SIZE - 1"
    by blast
  from T have "CacheService_has (fst (hd example_entries))
      (CacheService_set [5] example_response example_entries) \<longleftrightarrow> [5] = fst (hd example_entries)"
    by blast
  then have g: "\<not> CacheService_has [0] (CacheService_set [5] example_response example_entries)"
    by (simp add: h)
  from s have s': "getSize (CacheService_set [5] example_response example_entries) = 99"
    by (simp add: MAX_CACHE_SIZE_def)
  from r f p s' g show ?thesis by blast
qed

section \<open>The cache key and the order of the properties\<close>




















section \<open>The orchestrator: cache hit and backend failure\<close>

text \<open>
  Claim C8. When the cache holds a response under the key of the request,
  \<open>generateWebsite\<close> returns that response and leaves the service as it was: no provider
  is validated, no prompt is built, the backend is not called (the trace is unchanged)
  and the cache is not written.
\<close>

theorem cache_hit_returns_cached_response:
  assumes "resolve_provider ps request = Inr provider"
    and "Map_get (generateCacheKey (request_url request) provider (JObj (resolve_options request)))
           (cache s) = Some response"
  shows "generateWebsite ps generatePrompt backend clock request s = (Inr response, s)"
  using assms by (simp add: generateWebsite_def CacheService_get_def Let_def)

theorem cache_hit_returns_cached_response_witness:
  "resolve_provider no_providers example_request = Inr (js ''openai'')
   \<and> Map_get (generateCacheKey (request_url example_request) (js ''openai'')
         (JObj (resolve_options example_request))) (cache warm_service) = Some example_response
   \<and> validateProvider no_providers (js ''openai'')
       = Inl \<lparr>message = js ''Provider openai not found'', code = AI_PROVIDER_ERROR,
              error_provider = Some (js ''openai'')\<rparr>
   \<and> generateWebsite no_providers (\<lambda>u. u) (Inl NonError) example_clock example_request warm_service
       = (Inr example_response, warm_service)"
proof -
  have r: "resolve_provider no_providers example_request = Inr (js ''openai'')"
    by (simp add: resolve_provider_def example_request_def)
  have k: "generateCacheKey (request_url example_request) (js ''openai'')
         (JObj (resolve_options example_request)) = example_key"
    by (simp add: generateCacheKey_def example_request_def resolve_options_def example_key_def
        js_def QuoteJSONString_def escape_unit_def Number_toString_def is_high_surrogate_def
        is_low_surrogate_def)
  have h: "Map_get (generateCacheKey (request_url example_request) (js ''openai'')
         (JObj (resolve_options example_request))) (cache warm_service) = Some example_response"
    unfolding k by (simp add: warm_service_def)
  have v: "validateProvider no_providers (js ''openai'')
       = Inl \<lparr>message = js ''Provider openai not found'', code = AI_PROVIDER_ERROR,
              error_provider = Some (js ''openai'')\<rparr>"
    by code_simp
  from cache_hit_returns_cached_response [OF r h] r h v show ?thesis by blast
qed

lemma try_generate_failure_keeps_cache:
  "fst (try_generate backend clock provider aiProvider prompt opts cacheKey s) = Inl e
   \<Longrightarrow> cache (snd (try_generate backend clock provider aiProvider prompt opts cacheKey s)) = cache s"
  by (auto simp: try_generate_def Let_def split: sum.splits)

lemma generateWebsite_failure_keeps_cache:
  "fst (generateWebsite ps generatePrompt backend clock request s) = Inl e
   \<Longrightarrow> cache (snd (generateWebsite ps generatePrompt backend clock request s)) = cache s"
  using try_generate_failure_keeps_cache
  by (auto simp: generateWebsite_def CacheService_get_def Let_def split: sum.splits option.splits)

text \<open>
  Claim C9. On a cache miss with a valid provider, a backend call that throws makes
  \<open>generateWebsite\<close> raise an \<open>AIError\<close> with code \<open>CONTENT_GENERATION_FAILED\<close>, the
  provider id and the message \<open>Failed to generate content: \<close> followed by the message of
  the error thrown (\<open>Unknown error\<close> when the value thrown is not an \<open>Error\<close>), and the
  cache is unchanged. With the same inputs and a backend that returns, the response
  built from the completion is stored under the key of the request and returned. No run
  that raises changes the cache.
\<close>

theorem backend_failure_wrapped_and_cache_unchanged:
  assumes "resolve_provider ps request = Inr provider"
    and "cacheKey = generateCacheKey (request_url request) provider (JObj (resolve_options request))"
    and "Map_get cacheKey (cache s) = None"
    and "validateProvider ps provider = Inr aiProvider"
    and "getModelForProvider provider (provider_model aiProvider) = Inr handle"
  shows "fst (generateWebsite ps generatePrompt (Inl error) clock request s)
           = Inl \<lparr>message = js ''Failed to generate content: '' @ message_of error,
                  code = CONTENT_GENERATION_FAILED, error_provider = Some provider\<rparr>
       \<and> cache (snd (generateWebsite ps generatePrompt (Inl error) clock request s)) = cache s
       \<and> fst (generateWebsite ps generatePrompt (Inr result) clock request s)
           = Inr (build_response clock aiProvider result)
       \<and> cache (snd (generateWebsite ps generatePrompt (Inr result) clock request s))
           = CacheService_set cacheKey (build_response clock aiProvider result) (cache s)
       \<and> (\<forall>e. fst (generateWebsite ps' generatePrompt' backend' clock' request' s') = Inl e
              \<longrightarrow> cache (snd (generateWebsite ps' generatePrompt' backend' clock' request' s')) = cache s')"
  using assms generateWebsite_failure_keeps_cache [of ps' generatePrompt' backend' clock' request' s']
  by (simp add: generateWebsite_def try_generate_def generation_failed_def CacheService_get_def Let_def)

theorem backend_failure_wrapped_and_cache_unchanged_witness:
  "resolve_provider example_providers example_request = Inr (js ''openai'')
   \<and> example_key = generateCacheKey (request_url example_request) (js ''openai'')
         (JObj (resolve_options example_request))
   \<and> Map_get example_key (cache cold_service) = None
   \<and> validateProvider example_providers (js ''openai'') = Inr openai_provider
   \<and> getModelForProvider (js ''openai'') (provider_model openai_provider)
       = Inr (OpenAI (js ''gpt-4o''))
   \<and> fst (generateWebsite example_providers (\<lambda>u. u) (Inl (ErrorObject (js ''rate limit'')))
         example_clock example_request cold_service)
       = Inl \<lparr>message = js ''Failed to generate content: rate limit'',
              code = CONTENT_GENERATION_FAILED, error_provider = Some (js ''openai'')\<rparr>
   \<and> cache (snd (generateWebsite example_providers (\<lambda>u. u) (Inl (ErrorObject (js ''rate limit'')))
         example_clock example_request cold_service)) = cache cold_service
   \<and> cache (snd (generateWebsite example_providers (\<lambda>u. u) (Inr example_completion)
         example_clock example_request cold_service))
       = cache cold_service @ [(example_key, build_response example_clock openai_provider example_completion)]"
proof -
  have r: "resolve_provider example_providers example_request = Inr (js ''openai'')"
    by (simp add: resolve_provider_def example_request_def)
  have k: "example_key = generateCacheKey (request_url example_request) (js ''openai'')
         (JObj (resolve_options example_request))"
    by (simp add: generateCacheKey_def example_request_def resolve_options_def example_key_def
        js_def QuoteJSONString_def escape_unit_def Number_toString_def is_high_surrogate_def
        is_low_surrogate_def)
  have m: "Map_get example_key (cache cold_service) = None"
    by (simp add: cold_service_def example_key_def js_def)
  have v: "validateProvider example_providers (js ''openai'') = Inr openai_provider"
    by (simp add: validateProvider_def example_providers_def initializeProviders_def
        openai_provider_def js_def)
  have g: "getModelForProvider (js ''openai'') (provider_model openai_provider)
       = Inr (OpenAI (js ''gpt-4o''))"
    by (simp add: getModelForProvider_def openai_provider_def)
  have j: "js ''Failed to generate content: '' @ message_of (ErrorObject (js ''rate limit''))
      = js ''Failed to generate content: rate limit''"
    by (simp add: js_def)
  have c: "CacheService_set example_key (build_response example_clock openai_provider example_completion)
        (cache cold_service)
      = cache cold_service @ [(example_key, build_response example_clock openai_provider example_completion)]"
    by (simp add: CacheService_set_def cold_service_def MAX_CACHE_SIZE_def example_key_def js_def)
  note T = backend_failure_wrapped_and_cache_unchanged [OF r k m v g,
      of "\<lambda>u. u" "ErrorObject (js ''rate limit'')" example_clock example_completion,
      unfolded j c]
  from T have a: "fst (generateWebsite example_providers (\<lambda>u. u) (Inl (ErrorObject (js ''rate limit'')))
         example_clock example_request cold_service)
       = Inl \<lparr>message = js ''Failed to generate content: rate limit'',
              code = CONTENT_GENERATION_FAILED, error_provider = Some (js ''openai'')\<rparr>"
    by blast
  from T have b: "cache (snd (generateWebsite example_providers (\<lambda>u. u) (Inl (ErrorObject (js ''rate limit'')))
         example_clock example_request cold_service)) = cache cold_service"
    by blast
  from T have d: "cache (snd (generateWebsite example_providers (\<lambda>u. u) (Inr example_completion)
         example_clock example_request cold_service))
       = cache cold_service @ [(example_key, build_response example_clock openai_provider example_completion)]"
    by blast
  from r k m v g a b d show ?thesis by blast
qed

section \<open>The stream: terminal chunk, token accounting, restart\<close>

lemma on_delta_speeds:
  assumes "on_delta clock t v = (v', out)"
  shows "cumulativeSpeed v' = cumulativeSpeed v + sum_list (positive_speeds out)
       \<and> totalSpeedMeasurements v' = totalSpeedMeasurements v + length (positive_speeds out)
       \<and> (\<forall>c\<in>set out. \<not> chunk_done c)"
  using assms by (auto simp: on_delta_def positive_speeds_def Let_def split: if_splits)

lemma on_delta_tokens:
  assumes "on_delta clock t v = (v', out)"
  shows "var_inputTokens v' = var_inputTokens v
       \<and> map (\<lambda>c. outputTokens (metadata c)) out
           = running_sums (var_outputTokens v) (map (\<lambda>c. ceil_quarter (content c)) out)
       \<and> var_outputTokens v' = var_outputTokens v + sum_list (map (\<lambda>c. ceil_quarter (content c)) out)
       \<and> (\<forall>c\<in>set out. inputTokens (metadata c) = var_inputTokens v)
       \<and> map content out = filter (\<lambda>t. t \<noteq> []) [t]"
  using assms by (auto simp: on_delta_def Let_def split: if_splits)

lemma running_sums_append:
  "running_sums a (xs @ ys) = running_sums a xs @ running_sums (a + sum_list xs) ys"
  by (induction xs arbitrary: a) (auto simp: add.assoc)

lemma positive_speeds_append [simp]:
  "positive_speeds (xs @ ys) = positive_speeds xs @ positive_speeds ys"
  by (simp add: positive_speeds_def)

lemma positive_speeds_Nil [simp]: "positive_speeds [] = []"
  by (simp add: positive_speeds_def)

lemma yields_Nil [simp]: "yields v [] []"
  by (simp add: yields_def)

lemma measured_refl [simp]: "measured v [] v"
  by (simp add: measured_def)

lemma estimated_refl [simp]: "estimated v [] v"
  by (simp add: estimated_def)

lemma measured_trans:
  "measured v xs v1 \<Longrightarrow> measured v1 ys v2 \<Longrightarrow> measured v (xs @ ys) v2"
  by (simp add: measured_def)

lemma estimated_trans:
  "estimated v xs v1 \<Longrightarrow> estimated v1 ys v2 \<Longrightarrow> estimated v (xs @ ys) v2"
  by (simp add: estimated_def)

lemma yields_trans:
  "yields v xs ts \<Longrightarrow> estimated v xs v1 \<Longrightarrow> yields v1 ys us \<Longrightarrow> yields v (xs @ ys) (ts @ us)"
  by (auto simp: yields_def estimated_def running_sums_append)

lemma on_delta_facts:
  assumes "on_delta clock t v = (v', out)"
  shows "yields v out [t]" and "measured v out v'" and "estimated v out v'"
  using assms
  by (auto simp: on_delta_def yields_def measured_def estimated_def positive_speeds_def Let_def
           split: if_splits)

lemma count_facts:
  "yields (v\<lparr>chunkCount := n\<rparr>) out ts = yields v out ts"
  "measured (v\<lparr>chunkCount := n\<rparr>) out v' = measured v out v'"
  "estimated (v\<lparr>chunkCount := n\<rparr>) out v' = estimated v out v'"
  by (simp_all add: yields_def measured_def estimated_def)

lemma on_finish_measured: "measured v [] (on_finish u v)"
  by (cases u) (simp_all add: on_finish_def measured_def Let_def)

lemma consume_textStream_facts:
  assumes "consume_textStream clock ts v = (v', outs, r)"
  shows "yields v outs (text_texts ts) \<and> measured v outs v' \<and> estimated v outs v'
       \<and> r = text_raises ts"
  using assms
proof (induction ts arbitrary: v v' outs r)
  case Done
  then show ?case by simp
next
  case (Raise e)
  then show ?case by simp
next
  case (Yield t rest)
  let ?v1 = "v\<lparr>chunkCount := chunkCount v + 1\<rparr>"
  obtain v2 out where d: "on_delta clock t ?v1 = (v2, out)" by (cases "on_delta clock t ?v1")
  obtain v3 outs3 r3 where c: "consume_textStream clock rest v2 = (v3, outs3, r3)"
    by (cases "consume_textStream clock rest v2")
  from Yield.prems d c have eq: "v' = v3" "outs = out @ outs3" "r = r3"
    by (simp_all add: Let_def)
  note D = on_delta_facts [OF d, unfolded count_facts]
  note R = Yield.IH [OF c]
  have "yields v (out @ outs3) ([t] @ text_texts rest)"
    using D R by (blast intro: yields_trans)
  moreover have "measured v (out @ outs3) v3" using D R by (blast intro: measured_trans)
  moreover have "estimated v (out @ outs3) v3" using D R by (blast intro: estimated_trans)
  ultimately show ?case using R by (simp add: eq)
qed

lemma after_full_count:
  "after_full fin (v\<lparr>chunkCount := n\<rparr>) out v' = after_full fin v out v'"
  by (simp add: after_full_def estimated_def split: option.splits)

lemma after_full_step:
  "estimated v xs v1 \<Longrightarrow> after_full fin v1 ys v2 \<Longrightarrow> after_full fin v (xs @ ys) v2"
  by (simp add: after_full_def estimated_def add.assoc split: option.splits)

lemma consume_fullStream_facts:
  assumes "consume_fullStream clock fs v = (v', outs, r)"
  shows "yields v outs (full_texts fs) \<and> measured v outs v'
       \<and> after_full (finish_of fs) v outs v'
       \<and> (full_raises fs \<noteq> None \<longrightarrow> r = full_raises fs \<and> estimated v outs v')
       \<and> (finish_of fs \<noteq> None \<longrightarrow> r = None)"
  using assms
proof (induction fs arbitrary: v v' outs r)
  case Done
  then show ?case by (auto simp: after_full_def)
next
  case (Raise e)
  then show ?case by (auto simp: after_full_def)
next
  case (Yield part rest)
  let ?v1 = "v\<lparr>chunkCount := chunkCount v + 1\<rparr>"
  show ?case
  proof (cases part)
    case (TextDelta t)
    obtain v2 out where d: "on_delta clock t ?v1 = (v2, out)" by (cases "on_delta clock t ?v1")
    obtain v3 outs3 r3 where c: "consume_fullStream clock rest v2 = (v3, outs3, r3)"
      by (cases "consume_fullStream clock rest v2")
    from Yield.prems d c have eq: "v' = v3" "outs = out @ outs3" "r = r3"
      by (simp_all add: TextDelta Let_def)
    note D = on_delta_facts [OF d, unfolded count_facts]
    note R = Yield.IH [OF c]
    have "yields v (out @ outs3) ([t] @ full_texts rest)"
      using D R by (blast intro: yields_trans)
    moreover have "measured v (out @ outs3) v3" using D R by (blast intro: measured_trans)
    moreover have "after_full (finish_of rest) v (out @ outs3) v3"
      using D R by (blast intro: after_full_step)
    moreover have "full_raises rest \<noteq> None \<longrightarrow> estimated v (out @ outs3) v3"
      using D R by (blast intro: estimated_trans)
    ultimately show ?thesis using R by (simp add: eq TextDelta)
  next
    case (Finish u)
    from Yield.prems have eq: "v' = on_finish u ?v1" "outs = []" "r = None"
      by (simp_all add: Finish Let_def)
    have "after_full (Some u) v [] (on_finish u ?v1)"
      by (cases u) (simp_all add: after_full_def on_finish_def estimated_def Let_def)
    moreover have "measured v [] (on_finish u ?v1)"
      using on_finish_measured [of ?v1 u] by (simp add: count_facts)
    ultimately show ?thesis by (simp add: eq Finish)
  next
    case ErrorPart
    from Yield.prems have eq: "v' = ?v1" "outs = []"
      by (simp_all add: ErrorPart Let_def)
    show ?thesis by (simp add: eq ErrorPart after_full_def measured_def estimated_def)
  next
    case OtherPart
    from Yield.prems have c: "consume_fullStream clock rest ?v1 = (v', outs, r)"
      by (simp add: OtherPart Let_def)
    from Yield.IH [OF c] show ?thesis by (simp add: OtherPart count_facts after_full_count)
  qed
qed

lemma not_ready_raises:
  assumes "\<not> provider_ready ps provider"
  shows "\<exists>e. streamWebsite ps stream clock url provider prompt opts = ([], Raised e)"
  using assms
  by (auto simp: provider_ready_def streamWebsite_def split: sum.splits)

text \<open>A run with a provider that is ready: the two loops, then the last chunk or the error.\<close>

lemma ready_run:
  assumes "provider_ready ps provider"
    and "consume_fullStream clock (fullStream stream) (initial_locals clock prompt) = (v1, outs1, r1)"
    and "(case r1 of None \<Rightarrow> (v1, [], None)
          | Some e \<Rightarrow> consume_textStream clock (textStream stream) v1) = (v2, outs2, r2)"
  shows "streamWebsite ps stream clock url provider prompt opts =
     (case r2 of
        None \<Rightarrow> (outs1 @ outs2 @ [final_chunk clock v2], Completed)
      | Some error \<Rightarrow>
          (outs1 @ outs2,
           Raised \<lparr>message = js ''Failed to stream content: '' @ message_of error,
                   code = CONTENT_GENERATION_FAILED, error_provider = Some provider\<rparr>))"
  using assms
  by (auto simp: provider_ready_def streamWebsite_def Let_def split: sum.splits)

lemma final_chunk_simps [simp]:
  "chunk_done (final_chunk clock v)"
  "content (final_chunk clock v) = []"
  "inputTokens (metadata (final_chunk clock v)) = var_inputTokens v"
  "outputTokens (metadata (final_chunk clock v)) = var_outputTokens v"
  "tokensUsed (metadata (final_chunk clock v)) = totalTokens v"
  by (simp_all add: final_chunk_def Let_def)


lemma initial_locals_simps [simp]:
  "cumulativeSpeed (initial_locals clock prompt) = 0"
  "totalSpeedMeasurements (initial_locals clock prompt) = 0"
  "var_inputTokens (initial_locals clock prompt) = ceil_quarter prompt"
  "var_outputTokens (initial_locals clock prompt) = 0"
  by (simp_all add: initial_locals_def)

text \<open>Every run that completes, taken apart.\<close>

lemma completed_run:
  assumes "streamWebsite ps stream clock url provider prompt opts = (chunks, Completed)"
  obtains v1 outs1 r1 v2 outs2 where
    "consume_fullStream clock (fullStream stream) (initial_locals clock prompt) = (v1, outs1, r1)"
    and "(case r1 of None \<Rightarrow> (v1, [], None)
          | Some e \<Rightarrow> consume_textStream clock (textStream stream) v1) = (v2, outs2, None)"
    and "chunks = outs1 @ outs2 @ [final_chunk clock v2]"
proof -
  have ready: "provider_ready ps provider"
    using assms not_ready_raises [of ps provider stream clock url prompt opts] by auto
  obtain v1 outs1 r1 where
    c1: "consume_fullStream clock (fullStream stream) (initial_locals clock prompt) = (v1, outs1, r1)"
    by (cases "consume_fullStream clock (fullStream stream) (initial_locals clock prompt)")
  obtain v2 outs2 r2 where
    c2: "(case r1 of None \<Rightarrow> (v1, [], None)
          | Some e \<Rightarrow> consume_textStream clock (textStream stream) v1) = (v2, outs2, r2)"
    by (cases "(case r1 of None \<Rightarrow> (v1, [], None)
          | Some e \<Rightarrow> consume_textStream clock (textStream stream) v1)")
  from ready_run [OF ready c1 c2, of url opts] assms
  have "r2 = None \<and> chunks = outs1 @ outs2 @ [final_chunk clock v2]"
    by (cases r2) auto
  with c1 c2 that show ?thesis by blast
qed

lemma yields_member:
  assumes "yields v out ts" and "c \<in> set out"
  shows "\<not> chunk_done c" and "content c \<noteq> []" and "inputTokens (metadata c) = var_inputTokens v"
proof -
  have eq: "map content out = filter (\<lambda>t. t \<noteq> []) ts" using assms(1) by (simp add: yields_def)
  have "content c \<in> set (map content out)" using assms(2) by simp
  then have "content c \<in> set (filter (\<lambda>t. t \<noteq> []) ts)" unfolding eq .
  then show "content c \<noteq> []" by simp
  show "\<not> chunk_done c" "inputTokens (metadata c) = var_inputTokens v"
    using assms by (simp_all add: yields_def)
qed

lemma second_loop_facts:
  assumes "(case r1 of None \<Rightarrow> (v1, [], None)
          | Some e \<Rightarrow> consume_textStream clock ts v1) = (v2, outs2, r2)"
  shows "measured v1 outs2 v2 \<and> estimated v1 outs2 v2
       \<and> yields v1 outs2 (case r1 of None \<Rightarrow> [] | Some e \<Rightarrow> text_texts ts)"
  using assms consume_textStream_facts [of clock ts v1 v2 outs2 r2]
  by (cases r1) auto



lemma consume_fullStream_thrown:
  "consume_fullStream clock fs v = (v', outs, r) \<Longrightarrow> r = full_thrown fs"
proof (induction fs arbitrary: v v' outs r)
  case (Yield part rest)
  let ?v1 = "v\<lparr>chunkCount := chunkCount v + 1\<rparr>"
  show ?case
  proof (cases part)
    case (TextDelta t)
    obtain v2 out where d: "on_delta clock t ?v1 = (v2, out)" by (cases "on_delta clock t ?v1")
    obtain v3 outs3 r3 where c: "consume_fullStream clock rest v2 = (v3, outs3, r3)"
      by (cases "consume_fullStream clock rest v2")
    from Yield.prems d c have "r = r3" by (simp add: TextDelta Let_def)
    with Yield.IH [OF c] show ?thesis by (simp add: TextDelta)
  next
    case OtherPart
    from Yield.prems have "consume_fullStream clock rest ?v1 = (v', outs, r)"
      by (simp add: OtherPart Let_def)
    from Yield.IH [OF this] show ?thesis by (simp add: OtherPart)
  qed (use Yield.prems in \<open>auto simp: Let_def\<close>)
qed auto

lemma full_raises_thrown: "full_raises fs = Some e \<Longrightarrow> full_thrown fs = Some e"
  by (induction fs rule: full_raises.induct) auto

lemma finish_not_thrown: "finish_of fs = Some u \<Longrightarrow> full_thrown fs = None"
  by (induction fs rule: finish_of.induct) auto

text \<open>
  Claim C5, as amended. In a run that completes, every chunk before the last reports
  the input estimate \<open>ceil(promptLength / 4)\<close>; these chunks carry the non-empty deltas
  that were read, in order, and their output counts are the running sums of
  \<open>ceil(deltaLength / 4)\<close>, so an empty delta adds nothing. The last chunk reports the
  estimates, unless the loop stopped at a \<open>finish\<close> part with usage: then each total of
  the usage that is present and not zero replaces the estimate, and a total that is
  missing or zero leaves the estimate in place (the sum of input and output counts, for
  the total).
\<close>

theorem token_estimates_and_finish_totals:
  assumes "streamWebsite ps stream clock url provider prompt opts = (chunks, Completed)"
  shows "(\<forall>c\<in>set (butlast chunks). inputTokens (metadata c) = ceil_quarter prompt)
       \<and> map content (butlast chunks) = filter (\<lambda>t. t \<noteq> []) (deltas_read stream)
       \<and> map (\<lambda>c. outputTokens (metadata c)) (butlast chunks)
           = running_sums 0 (map (\<lambda>c. ceil_quarter (content c)) (butlast chunks))
       \<and> (case finish_of (fullStream stream) of
             Some (Some u) \<Rightarrow>
               inputTokens (metadata (last chunks))
                 = or_else (usage_inputTokens u) (ceil_quarter prompt)
               \<and> outputTokens (metadata (last chunks))
                 = or_else (usage_outputTokens u)
                     (sum_list (map (\<lambda>c. ceil_quarter (content c)) (butlast chunks)))
               \<and> tokensUsed (metadata (last chunks))
                 = or_else (usage_totalTokens u)
                     (inputTokens (metadata (last chunks)) + outputTokens (metadata (last chunks)))
           | _ \<Rightarrow>
               inputTokens (metadata (last chunks)) = ceil_quarter prompt
               \<and> outputTokens (metadata (last chunks))
                 = sum_list (map (\<lambda>c. ceil_quarter (content c)) (butlast chunks)))"
proof -
  from assms obtain v1 outs1 r1 v2 outs2 where
    c1: "consume_fullStream clock (fullStream stream) (initial_locals clock prompt) = (v1, outs1, r1)"
    and c2: "(case r1 of None \<Rightarrow> (v1, [], None)
          | Some e \<Rightarrow> consume_textStream clock (textStream stream) v1) = (v2, outs2, None)"
    and chunks: "chunks = outs1 @ outs2 @ [final_chunk clock v2]"
    by (rule completed_run)
  let ?v0 = "initial_locals clock prompt"
  let ?fs = "fullStream stream"
  let ?est = "\<lambda>cs. sum_list (map (\<lambda>c. ceil_quarter (content c)) cs)"
  note F = consume_fullStream_facts [OF c1]
  note S = second_loop_facts [OF c2]
  have r1: "r1 = full_thrown ?fs" using c1 by (rule consume_fullStream_thrown)
  have bl: "butlast chunks = outs1 @ outs2" by (simp add: chunks butlast_append)
  have la: "last chunks = final_chunk clock v2" by (simp add: chunks)
  have y1: "yields ?v0 outs1 (full_texts ?fs)" using F by blast
  have y2: "yields v1 outs2 (case r1 of None \<Rightarrow> [] | Some e \<Rightarrow> text_texts (textStream stream))"
    using S by blast
  show ?thesis
  proof (cases "finish_of ?fs")
    case None
    then have e1: "estimated ?v0 outs1 v1" using F by (simp add: after_full_def)
    have e2: "estimated v1 outs2 v2" using S by blast
    have e: "estimated ?v0 (outs1 @ outs2) v2" using e1 e2 by (rule estimated_trans)
    have y: "yields ?v0 (outs1 @ outs2) (deltas_read stream)"
      using yields_trans [OF y1 e1 y2] by (simp add: deltas_read_def r1 split: option.splits)
    have "\<forall>c\<in>set (outs1 @ outs2). inputTokens (metadata c) = ceil_quarter prompt"
      using yields_member(3) [OF y] by simp
    moreover have "map content (outs1 @ outs2) = filter (\<lambda>t. t \<noteq> []) (deltas_read stream)"
      using y by (simp add: yields_def)
    moreover have "map (\<lambda>c. outputTokens (metadata c)) (outs1 @ outs2)
           = running_sums 0 (map (\<lambda>c. ceil_quarter (content c)) (outs1 @ outs2))"
      using y by (simp add: yields_def)
    moreover have "var_inputTokens v2 = ceil_quarter prompt" "var_outputTokens v2 = ?est (outs1 @ outs2)"
      using e by (simp_all add: estimated_def)
    ultimately show ?thesis unfolding bl la by (simp add: None)
  next
    case (Some fin)
    then have nt: "full_thrown ?fs = None" by (rule finish_not_thrown)
    then have o2: "outs2 = []" "v2 = v1" using c2 r1 by simp_all
    have y: "yields ?v0 outs1 (deltas_read stream)"
      using y1 by (simp add: deltas_read_def nt)
    have a: "\<forall>c\<in>set outs1. inputTokens (metadata c) = ceil_quarter prompt"
      using yields_member(3) [OF y] by simp
    have b: "map content outs1 = filter (\<lambda>t. t \<noteq> []) (deltas_read stream)"
      using y by (simp add: yields_def)
    have c: "map (\<lambda>c. outputTokens (metadata c)) outs1
           = running_sums 0 (map (\<lambda>c. ceil_quarter (content c)) outs1)"
      using y by (simp add: yields_def)
    have af: "after_full (Some fin) ?v0 outs1 v1" using F Some by simp
    show ?thesis
    proof (cases fin)
      case None
      then have "estimated ?v0 outs1 v1" using af by (simp add: after_full_def)
      then have "var_inputTokens v1 = ceil_quarter prompt" "var_outputTokens v1 = ?est outs1"
        by (simp_all add: estimated_def)
      then show ?thesis using a b c unfolding bl la o2 by (simp add: Some None)
    next
      case (Some u)
      then have "var_inputTokens v1 = or_else (usage_inputTokens u) (ceil_quarter prompt)"
        "var_outputTokens v1 = or_else (usage_outputTokens u) (?est outs1)"
        "totalTokens v1 = or_else (usage_totalTokens u) (var_inputTokens v1 + var_outputTokens v1)"
        using af by (simp_all add: after_full_def)
      then show ?thesis using a b c unfolding bl la o2 by (simp add: \<open>finish_of ?fs = Some fin\<close> Some)
    qed
  qed
qed

theorem token_estimates_and_finish_totals_witness:
  "run_example zero_usage_stream = (fst (run_example zero_usage_stream), Completed)
   \<and> finish_of (fullStream zero_usage_stream) = Some (Some zero_usage)
   \<and> ceil_quarter example_prompt = 100
   \<and> map (\<lambda>c. ceil_quarter (content c)) (butlast (fst (run_example zero_usage_stream))) = [10]
   \<and> map (\<lambda>c. outputTokens (metadata c)) (butlast (fst (run_example zero_usage_stream))) = [10]
   \<and> inputTokens (metadata (last (fst (run_example zero_usage_stream)))) = 120
   \<and> outputTokens (metadata (last (fst (run_example zero_usage_stream)))) = 10
   \<and> tokensUsed (metadata (last (fst (run_example zero_usage_stream)))) = 120"
proof -
  have c: "snd (run_example zero_usage_stream) = Completed" by code_simp
  have r: "run_example zero_usage_stream = (fst (run_example zero_usage_stream), Completed)"
    using c by (simp add: prod_eq_iff)
  have f: "finish_of (fullStream zero_usage_stream) = Some (Some zero_usage)" by code_simp
  have p: "ceil_quarter example_prompt = 100" by code_simp
  have e: "map (\<lambda>c. ceil_quarter (content c)) (butlast (fst (run_example zero_usage_stream))) = [10]"
    by code_simp
  have u: "usage_inputTokens zero_usage = Some 120" "usage_outputTokens zero_usage = Some 0"
    "usage_totalTokens zero_usage = Some 120"
    by (simp_all add: zero_usage_def)
  note T = token_estimates_and_finish_totals [OF r [unfolded run_example_def],
      folded run_example_def, unfolded f option.case e p u]
  from T have ou: "map (\<lambda>c. outputTokens (metadata c)) (butlast (fst (run_example zero_usage_stream))) = [10]"
    by simp
  from T have l: "inputTokens (metadata (last (fst (run_example zero_usage_stream)))) = 120"
    "outputTokens (metadata (last (fst (run_example zero_usage_stream)))) = 10"
    by simp_all
  from T l have t: "tokensUsed (metadata (last (fst (run_example zero_usage_stream)))) = 120"
    by simp
  from r f p e ou l t show ?thesis by blast
qed

text \<open>
  Claim C5 as stated fails where a total of the usage is zero: after a delta of 40
  characters, a \<open>finish\<close> part that reports 0 output tokens leaves the estimate of 10 in
  the last chunk.
\<close>

theorem finish_zero_total_counterexample:
  "finish_of (fullStream zero_usage_stream) = Some (Some zero_usage)
   \<and> usage_outputTokens zero_usage = Some 0
   \<and> snd (run_example zero_usage_stream) = Completed
   \<and> outputTokens (metadata (last (fst (run_example zero_usage_stream)))) = 10"
  by code_simp

text \<open>
  Claim C3, as amended. When the iteration over the richer stream raises, the generator
  restarts on the text-only stream whether or not content was observed before: the
  chunks it yields carry the non-empty deltas read from the first stream followed by
  those of the second. The run completes with the terminal chunk when the second
  stream ends normally; it raises \<open>CONTENT_GENERATION_FAILED\<close> for the provider, with the
  message of the second failure and without any terminal chunk, exactly when the second
  stream raises as well.
\<close>

theorem restart_whenever_full_stream_raises:
  assumes "provider_ready ps provider" and "full_raises (fullStream stream) = Some e"
  shows "map content (filter (\<lambda>c. \<not> chunk_done c)
             (fst (streamWebsite ps stream clock url provider prompt opts)))
           = filter (\<lambda>t. t \<noteq> []) (full_texts (fullStream stream))
             @ filter (\<lambda>t. t \<noteq> []) (text_texts (textStream stream))
       \<and> (case text_raises (textStream stream) of
             None \<Rightarrow>
               snd (streamWebsite ps stream clock url provider prompt opts) = Completed
               \<and> fst (streamWebsite ps stream clock url provider prompt opts) \<noteq> []
               \<and> chunk_done (last (fst (streamWebsite ps stream clock url provider prompt opts)))
           | Some e2 \<Rightarrow>
               snd (streamWebsite ps stream clock url provider prompt opts)
                 = Raised \<lparr>message = js ''Failed to stream content: '' @ message_of e2,
                           code = CONTENT_GENERATION_FAILED, error_provider = Some provider\<rparr>
               \<and> (\<forall>c\<in>set (fst (streamWebsite ps stream clock url provider prompt opts)).
                     \<not> chunk_done c))"
proof -
  let ?v0 = "initial_locals clock prompt"
  obtain v1 outs1 r1 where
    c1: "consume_fullStream clock (fullStream stream) ?v0 = (v1, outs1, r1)"
    by (cases "consume_fullStream clock (fullStream stream) ?v0")
  have r1: "r1 = Some e"
    using consume_fullStream_thrown [OF c1] full_raises_thrown [OF assms(2)] by simp
  obtain v2 outs2 r2 where
    c2: "consume_textStream clock (textStream stream) v1 = (v2, outs2, r2)"
    by (cases "consume_textStream clock (textStream stream) v1")
  have c2': "(case r1 of None \<Rightarrow> (v1, [], None)
          | Some e \<Rightarrow> consume_textStream clock (textStream stream) v1) = (v2, outs2, r2)"
    by (simp add: r1 c2)
  note R = ready_run [OF assms(1) c1 c2', of url opts]
  note F = consume_fullStream_facts [OF c1]
  note S = consume_textStream_facts [OF c2]
  have y1: "yields ?v0 outs1 (full_texts (fullStream stream))" using F by blast
  have y2: "yields v1 outs2 (text_texts (textStream stream))" using S by blast
  have r2: "r2 = text_raises (textStream stream)" using S by blast
  have n1: "filter (\<lambda>c. \<not> chunk_done c) outs1 = outs1"
    using yields_member(1) [OF y1] by (simp add: filter_id_conv)
  have n2: "filter (\<lambda>c. \<not> chunk_done c) outs2 = outs2"
    using yields_member(1) [OF y2] by (simp add: filter_id_conv)
  have m1: "map content outs1 = filter (\<lambda>t. t \<noteq> []) (full_texts (fullStream stream))"
    using y1 by (simp add: yields_def)
  have m2: "map content outs2 = filter (\<lambda>t. t \<noteq> []) (text_texts (textStream stream))"
    using y2 by (simp add: yields_def)
  show ?thesis
  proof (cases r2)
    case None
    then have "streamWebsite ps stream clock url provider prompt opts
        = (outs1 @ outs2 @ [final_chunk clock v2], Completed)"
      using R by simp
    then show ?thesis using n1 n2 m1 m2 None r2 by simp
  next
    case (Some e2)
    then have "streamWebsite ps stream clock url provider prompt opts
        = (outs1 @ outs2,
           Raised \<lparr>message = js ''Failed to stream content: '' @ message_of e2,
                   code = CONTENT_GENERATION_FAILED, error_provider = Some provider\<rparr>)"
      using R by simp
    moreover have "\<forall>c\<in>set (outs1 @ outs2). \<not> chunk_done c"
      using yields_member(1) [OF y1] yields_member(1) [OF y2] by auto
    ultimately show ?thesis using n1 n2 m1 m2 Some r2 by simp
  qed
qed

theorem restart_whenever_full_stream_raises_witness:
  "provider_ready example_providers (js ''openai'')
   \<and> full_raises (fullStream failing_stream) = Some (ErrorObject (js ''socket closed''))
   \<and> full_raises (fullStream doubly_failing_stream) = Some (ErrorObject (js ''socket closed''))
   \<and> text_raises (textStream failing_stream) = None
   \<and> text_raises (textStream doubly_failing_stream) = Some (ErrorObject (js ''socket closed''))
   \<and> snd (run_example failing_stream) = Completed
   \<and> chunk_done (last (fst (run_example failing_stream)))
   \<and> snd (run_example doubly_failing_stream)
       = Raised \<lparr>message = js ''Failed to stream content: socket closed'',
                 code = CONTENT_GENERATION_FAILED, error_provider = Some (js ''openai'')\<rparr>
   \<and> filter chunk_done (fst (run_example doubly_failing_stream)) = []
   \<and> map content (fst (run_example doubly_failing_stream)) = [js ''<html>'', js ''<html>'']"
proof -
  have p: "provider_ready example_providers (js ''openai'')" by code_simp
  have f1: "full_raises (fullStream failing_stream) = Some (ErrorObject (js ''socket closed''))"
    by code_simp
  have f2: "full_raises (fullStream doubly_failing_stream) = Some (ErrorObject (js ''socket closed''))"
    by code_simp
  have t1: "text_raises (textStream failing_stream) = None" by code_simp
  have t2: "text_raises (textStream doubly_failing_stream) = Some (ErrorObject (js ''socket closed''))"
    by code_simp
  have j: "js ''Failed to stream content: '' @ message_of (ErrorObject (js ''socket closed''))
      = js ''Failed to stream content: socket closed''"
    by (simp add: js_def)
  have x: "filter (\<lambda>t. t \<noteq> []) (full_texts (fullStream doubly_failing_stream))
      @ filter (\<lambda>t. t \<noteq> []) (text_texts (textStream doubly_failing_stream))
      = [js ''<html>'', js ''<html>'']"
    by (simp add: doubly_failing_stream_def js_def)
  note T1 = restart_whenever_full_stream_raises [OF p f1, of example_clock "js ''example.com''"
      example_prompt "[]", unfolded t1 option.case, folded run_example_def]
  note T2 = restart_whenever_full_stream_raises [OF p f2, of example_clock "js ''example.com''"
      example_prompt "[]", unfolded t2 option.case j x, folded run_example_def]
  from T1 have a: "snd (run_example failing_stream) = Completed"
    "chunk_done (last (fst (run_example failing_stream)))"
    by blast+
  from T2 have b: "snd (run_example doubly_failing_stream)
       = Raised \<lparr>message = js ''Failed to stream content: socket closed'',
                 code = CONTENT_GENERATION_FAILED, error_provider = Some (js ''openai'')\<rparr>"
    by blast
  from T2 have n: "\<forall>c\<in>set (fst (run_example doubly_failing_stream)). \<not> chunk_done c"
    by blast
  then have c: "filter chunk_done (fst (run_example doubly_failing_stream)) = []"
    by (simp add: filter_empty_conv)
  from n have "filter (\<lambda>c. \<not> chunk_done c) (fst (run_example doubly_failing_stream))
      = fst (run_example doubly_failing_stream)"
    by (simp add: filter_id_conv)
  with T2 have d: "map content (fst (run_example doubly_failing_stream)) = [js ''<html>'', js ''<html>'']"
    by simp
  from p f1 f2 t1 t2 a b c d show ?thesis by blast
qed

text \<open>
  Claim C3 as stated fails: a failure of the richer stream after content was observed
  is answered by the restart, and the run completes with a terminal chunk. Here the
  first stream delivers \<open><html>\<close> and then raises; the second delivers \<open><html>\<close> and
  \<open></html>\<close>; the caller receives the first delta twice, and no error.
\<close>

theorem failure_after_content_counterexample:
  "full_texts (fullStream failing_stream) = [js ''<html>'']
   \<and> full_thrown (fullStream failing_stream) = Some (ErrorObject (js ''socket closed''))
   \<and> snd (run_example failing_stream) = Completed
   \<and> map (\<lambda>c. (content c, chunk_done c)) (fst (run_example failing_stream))
       = [(js ''<html>'', False), (js ''<html>'', False), (js ''</html>'', False), ([], True)]"
  by code_simp

section \<open>The extractor\<close>

lemma matches_at_iff:
  "matches_at P s \<longleftrightarrow>
     length P \<le> length s \<and> map canonicalize (take (length P) s) = map canonicalize P"
  by (induction P s rule: matches_at.induct) auto

lemma matches_at_append:
  "map canonicalize t = map canonicalize P \<Longrightarrow> matches_at P (t @ r)"
proof -
  assume a: "map canonicalize t = map canonicalize P"
  then have "length t = length P" by (metis length_map)
  with a show ?thesis by (simp add: matches_at_iff)
qed

lemma lazy_until_split:
  "lazy_until B s = Some (g, m, r) \<Longrightarrow> s = g @ m @ r \<and> length m = length B"
proof (induction s arbitrary: g m r)
  case Nil
  then show ?case by (cases B) (auto split: if_splits)
next
  case (Cons c cs)
  show ?case
  proof (cases "matches_at B (c # cs)")
    case True
    then have "length B \<le> length (c # cs)" by (simp add: matches_at_iff)
    with Cons.prems True show ?thesis by auto
  next
    case False
    with Cons.prems obtain g' where "lazy_until B cs = Some (g', m, r)" "g = c # g'"
      by (auto split: option.splits)
    with Cons.IH [of g' m r] show ?thesis by simp
  qed
qed

lemma exec_here_split:
  assumes "exec_here A B s = Some m"
  shows "match_before m = []" and "s = match_whole m @ match_after m"
    and "length (match_whole m) = length A + length (match_group m) + length B"
proof -
  from assms have A: "matches_at A s" by (auto simp: exec_here_def split: if_splits)
  then have len: "length A \<le> length s" by (simp add: matches_at_iff)
  from assms A obtain g b r where l: "lazy_until B (drop (length A) s) = Some (g, b, r)"
    and m: "m = \<lparr>match_before = [], match_whole = take (length A) s @ g @ b, match_group = g, match_after = r\<rparr>"
    by (auto simp: exec_here_def split: option.splits)
  from lazy_until_split [OF l] have d: "drop (length A) s = g @ b @ r" "length b = length B"
    by simp_all
  show "match_before m = []" by (simp add: m)
  have "s = take (length A) s @ drop (length A) s" by simp
  then show "s = match_whole m @ match_after m" unfolding d by (simp add: m)
  show "length (match_whole m) = length A + length (match_group m) + length B"
    using len d by (simp add: m)
qed

lemma regex_exec_split:
  "regex_exec A B s = Some m \<Longrightarrow> s = match_before m @ match_whole m @ match_after m
     \<and> length (match_whole m) = length A + length (match_group m) + length B"
proof (induction s arbitrary: m)
  case Nil
  then show ?case using exec_here_split [of A B "[]" m] by simp
next
  case (Cons c cs)
  show ?case
  proof (cases "exec_here A B (c # cs)")
    case (Some m')
    with Cons.prems have "m = m'" by simp
    with exec_here_split [OF Some] show ?thesis by simp
  next
    case None
    with Cons.prems obtain m' where r: "regex_exec A B cs = Some m'"
      and m: "m = m'\<lparr>match_before := c # match_before m'\<rparr>"
      by (auto split: option.splits)
    from Cons.IH [OF r] show ?thesis by (simp add: m)
  qed
qed

lemma same_tag_length: "same_tag t p \<Longrightarrow> length t = length p"
  unfolding same_tag_def by (metis length_map)

lemma same_tag_matches: "same_tag t p \<Longrightarrow> matches_at p (t @ r)"
  unfolding same_tag_def by (rule matches_at_append)

lemma matches_at_same_tag: "matches_at p s \<Longrightarrow> same_tag (take (length p) s) p"
  by (simp add: matches_at_iff same_tag_def)

text \<open>The lazy part stops at the first position where the closing literal matches.\<close>

lemma lazy_until_first:
  assumes "same_tag cls B" and "\<forall>j<length inner. \<not> matches_at B (drop j (inner @ cls @ post))"
  shows "lazy_until B (inner @ cls @ post) = Some (inner, cls, post)"
  using assms(2)
proof (induction inner)
  case Nil
  have m: "matches_at B (cls @ post)" using assms(1) by (rule same_tag_matches)
  have l: "length cls = length B" using assms(1) by (rule same_tag_length)
  show ?case
  proof (cases "cls @ post")
    case Nil
    with m l show ?thesis by simp
  next
    case (Cons c cs)
    have "take (length B) (cls @ post) = cls" "drop (length B) (cls @ post) = post"
      using l by simp_all
    with m Cons show ?thesis by simp
  qed
next
  case (Cons c inner)
  from Cons.prems have "\<not> matches_at B (drop 0 ((c # inner) @ cls @ post))" by blast
  then have n: "\<not> matches_at B (c # inner @ cls @ post)" by simp
  have "\<forall>j<length inner. \<not> matches_at B (drop j (inner @ cls @ post))"
  proof (intro allI impI)
    fix j assume "j < length inner"
    then have "Suc j < length (c # inner)" by simp
    with Cons.prems have "\<not> matches_at B (drop (Suc j) ((c # inner) @ cls @ post))" by blast
    then show "\<not> matches_at B (drop j (inner @ cls @ post))" by simp
  qed
  from Cons.IH [OF this] n show ?case by simp
qed

lemma lazy_until_sound:
  "lazy_until B s = Some (g, m, r) \<Longrightarrow>
     same_tag m B \<and> (\<forall>j<length g. \<not> matches_at B (drop j s))"
proof (induction s arbitrary: g m r)
  case Nil
  then show ?case by (cases B) (auto simp: same_tag_def split: if_splits)
next
  case (Cons c cs)
  show ?case
  proof (cases "matches_at B (c # cs)")
    case True
    with Cons.prems matches_at_same_tag [OF True] show ?thesis by auto
  next
    case False
    with Cons.prems obtain g' where l: "lazy_until B cs = Some (g', m, r)" and g: "g = c # g'"
      by (auto split: option.splits)
    from Cons.IH [OF l] have t: "same_tag m B"
      and f: "\<forall>j<length g'. \<not> matches_at B (drop j cs)" by simp_all
    have "\<forall>j<length g. \<not> matches_at B (drop j (c # cs))"
    proof (intro allI impI)
      fix j assume j: "j < length g"
      show "\<not> matches_at B (drop j (c # cs))"
      proof (cases j)
        case 0
        with False show ?thesis by simp
      next
        case (Suc k)
        with j g f show ?thesis by simp
      qed
    qed
    with t show ?thesis by simp
  qed
qed

lemma lazy_until_complete:
  "matches_at B (drop j s) \<Longrightarrow> lazy_until B s \<noteq> None"
proof (induction s arbitrary: j)
  case Nil
  then show ?case by simp
next
  case (Cons c cs)
  show ?case
  proof (cases "matches_at B (c # cs)")
    case True
    then show ?thesis by simp
  next
    case False
    with Cons.prems obtain k where "j = Suc k" by (cases j) auto
    with Cons.prems have "matches_at B (drop k cs)" by simp
    from Cons.IH [OF this] False show ?thesis by (auto split: option.splits)
  qed
qed

lemma exec_here_regex_exec: "exec_here A B s = Some m \<Longrightarrow> regex_exec A B s = Some m"
  by (cases s) simp_all

lemma exec_here_first:
  assumes "same_tag opn A" and "same_tag cls B"
    and "\<forall>j<length inner. \<not> matches_at B (drop j (inner @ cls @ post))"
  shows "exec_here A B (opn @ inner @ cls @ post)
     = Some \<lparr>match_before = [], match_whole = opn @ inner @ cls, match_group = inner,
             match_after = post\<rparr>"
proof -
  have l: "length opn = length A" using assms(1) by (rule same_tag_length)
  have m: "matches_at A (opn @ inner @ cls @ post)" using assms(1) by (rule same_tag_matches)
  have "lazy_until B (inner @ cls @ post) = Some (inner, cls, post)"
    using assms(2,3) by (rule lazy_until_first)
  with l m show ?thesis by (simp add: exec_here_def)
qed

lemma regex_exec_skip:
  assumes "\<forall>i<length pre. \<not> matches_at A (drop i (pre @ rest))"
    and "exec_here A B rest = Some m"
  shows "regex_exec A B (pre @ rest) = Some (m\<lparr>match_before := pre @ match_before m\<rparr>)"
  using assms(1)
proof (induction pre)
  case Nil
  then show ?case using exec_here_regex_exec [OF assms(2)] by simp
next
  case (Cons c pre)
  from Cons.prems have "\<not> matches_at A (drop 0 ((c # pre) @ rest))" by blast
  then have n: "exec_here A B (c # pre @ rest) = None" by (simp add: exec_here_def)
  have "\<forall>i<length pre. \<not> matches_at A (drop i (pre @ rest))"
  proof (intro allI impI)
    fix i assume "i < length pre"
    then have "Suc i < length (c # pre)" by simp
    with Cons.prems have "\<not> matches_at A (drop (Suc i) ((c # pre) @ rest))" by blast
    then show "\<not> matches_at A (drop i (pre @ rest))" by simp
  qed
  from Cons.IH [OF this] n show ?case by simp
qed

text \<open>The match of a buffer with a first closed region is that region.\<close>

lemma regex_exec_first_region:
  assumes "first_region A B s pre opn inner cls post"
  shows "regex_exec A B s
     = Some \<lparr>match_before = pre, match_whole = opn @ inner @ cls, match_group = inner,
             match_after = post\<rparr>"
proof -
  from assms have s: "s = pre @ opn @ inner @ cls @ post" and o: "same_tag opn A"
    and c: "same_tag cls B"
    and f': "\<forall>i<length pre. \<not> matches_at A (drop i s)"
    and g: "\<forall>j<length inner. \<not> matches_at B (drop j (inner @ cls @ post))"
    unfolding first_region_def closed_region_def by blast+
  from f' have f: "\<forall>i<length pre. \<not> matches_at A (drop i (pre @ opn @ inner @ cls @ post))"
    unfolding s .
  from regex_exec_skip [OF f exec_here_first [OF o c g]] show ?thesis unfolding s by simp
qed

lemma exec_here_sound:
  assumes "exec_here A B s = Some m"
  shows "\<exists>opn cls. match_whole m = opn @ match_group m @ cls
     \<and> first_region A B s (match_before m) opn (match_group m) cls (match_after m)"
proof -
  from assms have A: "matches_at A s" by (auto simp: exec_here_def split: if_splits)
  from assms A obtain g b r where l: "lazy_until B (drop (length A) s) = Some (g, b, r)"
    and m: "m = \<lparr>match_before = [], match_whole = take (length A) s @ g @ b, match_group = g,
                 match_after = r\<rparr>"
    by (auto simp: exec_here_def split: option.splits)
  from lazy_until_split [OF l] have d: "drop (length A) s = g @ b @ r" by simp
  from lazy_until_sound [OF l] have t: "same_tag b B"
    and f: "\<forall>j<length g. \<not> matches_at B (drop j (g @ b @ r))"
    by (simp_all add: d)
  have "s = take (length A) s @ drop (length A) s" by simp
  then have s: "s = take (length A) s @ g @ b @ r" unfolding d .
  have "first_region A B s [] (take (length A) s) g b r"
    unfolding first_region_def closed_region_def
    using s t f matches_at_same_tag [OF A] by simp
  then show ?thesis by (auto simp: m)
qed

lemma first_region_Cons:
  assumes "first_region A B cs pre opn inner cls post" and "\<not> matches_at A (c # cs)"
  shows "first_region A B (c # cs) (c # pre) opn inner cls post"
proof -
  have "\<forall>i<length (c # pre). \<not> matches_at A (drop i (c # cs))"
  proof (intro allI impI)
    fix i assume i: "i < length (c # pre)"
    show "\<not> matches_at A (drop i (c # cs))"
    proof (cases i)
      case 0
      with assms(2) show ?thesis by simp
    next
      case (Suc k)
      with i assms(1) show ?thesis by (simp add: first_region_def)
    qed
  qed
  with assms(1) show ?thesis by (simp add: first_region_def closed_region_def)
qed

lemma closed_region_closes_earlier:
  assumes "closed_region A B cs pre opn inner cls post" and "matches_at A (c # cs)"
  shows "exec_here A B (c # cs) \<noteq> None"
proof -
  from assms(1) have cs: "cs = pre @ opn @ inner @ cls @ post" and o: "same_tag opn A"
    and t: "same_tag cls B"
    by (simp_all add: closed_region_def)
  have l: "length opn = length A" using o by (rule same_tag_length)
  let ?j = "Suc (length pre + length inner)"
  have "drop (length A + ?j) (c # cs) = cls @ post"
    using l by (simp add: cs)
  then have "drop ?j (drop (length A) (c # cs)) = cls @ post"
    by (simp add: add.commute)
  then have "matches_at B (drop ?j (drop (length A) (c # cs)))"
    using same_tag_matches [OF t, of post] by simp
  then have "lazy_until B (drop (length A) (c # cs)) \<noteq> None" by (rule lazy_until_complete)
  with assms(2) show ?thesis by (auto simp: exec_here_def split: option.splits)
qed

text \<open>What \<open>regex_exec\<close> finds is the first closed region.\<close>

lemma regex_exec_sound:
  "regex_exec A B s = Some m \<Longrightarrow>
     \<exists>opn cls. match_whole m = opn @ match_group m @ cls
       \<and> first_region A B s (match_before m) opn (match_group m) cls (match_after m)"
proof (induction s arbitrary: m)
  case Nil
  then have "exec_here A B [] = Some m" by simp
  then show ?case by (rule exec_here_sound)
next
  case (Cons c cs)
  show ?case
  proof (cases "exec_here A B (c # cs)")
    case (Some m')
    with Cons.prems have "m = m'" by simp
    with exec_here_sound [OF Some] show ?thesis by simp
  next
    case None
    with Cons.prems obtain m' where r: "regex_exec A B cs = Some m'"
      and m: "m = m'\<lparr>match_before := c # match_before m'\<rparr>"
      by (auto split: option.splits)
    from Cons.IH [OF r] obtain opn cls where w: "match_whole m' = opn @ match_group m' @ cls"
      and f: "first_region A B cs (match_before m') opn (match_group m') cls (match_after m')"
      by blast
    from f have "closed_region A B cs (match_before m') opn (match_group m') cls (match_after m')"
      by (simp add: first_region_def)
    from closed_region_closes_earlier [OF this] None have "\<not> matches_at A (c # cs)" by blast
    from first_region_Cons [OF f this] w show ?thesis by (auto simp: m)
  qed
qed

text \<open>A buffer with a closed region has a match.\<close>

lemma regex_exec_complete:
  assumes "closed_region A B s pre opn inner cls post"
  shows "regex_exec A B s \<noteq> None"
proof -
  from assms have s: "s = pre @ opn @ inner @ cls @ post" and o: "same_tag opn A"
    and t: "same_tag cls B"
    by (simp_all add: closed_region_def)
  have l: "length opn = length A" using o by (rule same_tag_length)
  have "matches_at B (drop (length inner) (inner @ cls @ post))"
    using same_tag_matches [OF t, of post] by simp
  then have "lazy_until B (inner @ cls @ post) \<noteq> None" by (rule lazy_until_complete)
  then have e: "exec_here A B (opn @ inner @ cls @ post) \<noteq> None"
    using same_tag_matches [OF o, of "inner @ cls @ post"] l
    by (auto simp: exec_here_def split: option.splits)
  have "regex_exec A B (pre @ opn @ inner @ cls @ post) \<noteq> None"
  proof (induction pre)
    case Nil
    from e obtain m where "exec_here A B (opn @ inner @ cls @ post) = Some m" by blast
    from exec_here_regex_exec [OF this] show ?case by simp
  next
    case (Cons c pre)
    then show ?case by (auto split: option.splits)
  qed
  then show ?thesis by (simp add: s)
qed

text \<open>
  Claim C6. Whenever the buffer contains a closed \<open><code>...</code>\<close> region (tags in any
  case), it has a first such region, from the first opening tag to the first closing tag
  behind it, and the document output is the trimmed inner text of this region, whatever
  the fallback would compute: the fallback ladder is not consulted. The region given is
  this first region when no opening tag starts before it and no closing tag inside it.
\<close>

theorem closed_code_region_is_the_document:
  assumes "closed_region (js ''<code>'') (js ''</code>'') (streamContent ui) pre opn inner cls post"
  shows "\<exists>pre' opn' inner' cls' post'.
           first_region (js ''<code>'') (js ''</code>'') (streamContent ui) pre' opn' inner' cls' post'
           \<and> (\<forall>fallback. codeContent (parseAndUpdateContent_with fallback ui) = trim inner')
           \<and> codeContent (parseAndUpdateContent ui) = trim inner'
           \<and> (first_region (js ''<code>'') (js ''</code>'') (streamContent ui) pre opn inner cls post
                \<longrightarrow> inner' = inner)"
proof -
  let ?A = "js ''<code>''" and ?B = "js ''</code>''"
  from regex_exec_complete [OF assms] obtain m where m: "regex_exec ?A ?B (streamContent ui) = Some m"
    by blast
  from regex_exec_sound [OF m] obtain opn' cls' where
    f: "first_region ?A ?B (streamContent ui) (match_before m) opn' (match_group m) cls' (match_after m)"
    by blast
  have r: "\<forall>fallback. codeContent (parseAndUpdateContent_with fallback ui) = trim (match_group m)"
    by (simp add: parseAndUpdateContent_with_def m Let_def)
  then have p: "codeContent (parseAndUpdateContent ui) = trim (match_group m)"
    by (simp add: parseAndUpdateContent_def)
  have u: "first_region ?A ?B (streamContent ui) pre opn inner cls post \<longrightarrow> match_group m = inner"
  proof
    assume "first_region ?A ?B (streamContent ui) pre opn inner cls post"
    from regex_exec_first_region [OF this] m show "match_group m = inner" by simp
  qed
  from f r p u show ?thesis by blast
qed

lemma code_buffer_region:
  "first_region (js ''<code>'') (js ''</code>'') code_buffer
     (js ''<html><body>'') (js ''<CODE>'') (js '' <p>x '') (js ''</Code>'') (js ''<div>'')"
  by (simp add: first_region_def closed_region_def same_tag_def code_buffer_def js_def
      canonicalize_def All_less_Suc2)

theorem closed_code_region_is_the_document_witness:
  "closed_region (js ''<code>'') (js ''</code>'') (streamContent (fresh_ui code_buffer))
     (js ''<html><body>'') (js ''<CODE>'') (js '' <p>x '') (js ''</Code>'') (js ''<div>'')
   \<and> codeContent (parseAndUpdateContent (fresh_ui code_buffer)) = js ''<p>x''
   \<and> extractHTMLFromContent code_buffer \<noteq> js ''<p>x''"
proof -
  have s: "streamContent (fresh_ui code_buffer) = code_buffer" by (simp add: fresh_ui_def)
  have f: "first_region (js ''<code>'') (js ''</code>'') (streamContent (fresh_ui code_buffer))
     (js ''<html><body>'') (js ''<CODE>'') (js '' <p>x '') (js ''</Code>'') (js ''<div>'')"
    unfolding s by (rule code_buffer_region)
  then have c: "closed_region (js ''<code>'') (js ''</code>'') (streamContent (fresh_ui code_buffer))
     (js ''<html><body>'') (js ''<CODE>'') (js '' <p>x '') (js ''</Code>'') (js ''<div>'')"
    by (simp add: first_region_def)
  from closed_code_region_is_the_document [OF c] f
  have "codeContent (parseAndUpdateContent (fresh_ui code_buffer)) = trim (js '' <p>x '')"
    by auto
  moreover have "trim (js '' <p>x '') = js ''<p>x''"
    by (simp add: trim_def js_def is_space_def)
  moreover have "extractHTMLFromContent code_buffer \<noteq> js ''<p>x''"
    by (simp add: code_buffer_def js_def exec_here_def canonicalize_def remove_matches_def
        trim_def is_space_def extractHTMLFromContent_def line_scan_def starts_html_def
        add_closing_tags_def fence_def Let_def)
  ultimately show ?thesis using c by simp
qed

text \<open>A literal that starts with \<open><\<close> (60) matches nowhere inside a text without \<open><\<close>.\<close>

lemma canonicalize_lt: "canonicalize c = 60 \<longleftrightarrow> c = 60"
  by (auto simp: canonicalize_def)

lemma no_match_without_lt:
  assumes "60 \<notin> set X" and "j < length X"
  shows "\<not> matches_at (60 # A) (drop j (X @ rest))"
proof -
  from assms(2) obtain c cs where d: "drop j X = c # cs" by (cases "drop j X") auto
  then have "c \<in> set X" by (metis in_set_dropD list.set_intros(1))
  with assms(1) have "c \<noteq> 60" by auto
  then have "canonicalize 60 \<noteq> canonicalize c"
    using canonicalize_lt [of c] by (simp add: canonicalize_def)
  moreover have "drop j (X @ rest) = c # cs @ rest" using assms(2) d by simp
  ultimately show ?thesis by simp
qed

lemma regex_exec_skip_text:
  assumes "60 \<notin> set X"
  shows "regex_exec (60 # A) B (X @ c # rest)
     = (case regex_exec (60 # A) B (c # rest) of
          None \<Rightarrow> None
        | Some m \<Rightarrow> Some (m\<lparr>match_before := X @ match_before m\<rparr>))"
  using assms
proof (induction X)
  case Nil
  then show ?case by (simp split: option.splits)
next
  case (Cons x X)
  then have "x \<noteq> 60" by auto
  then have "canonicalize 60 \<noteq> canonicalize x"
    using canonicalize_lt [of x] by (simp add: canonicalize_def)
  then have "exec_here (60 # A) B (x # X @ c # rest) = None" by (simp add: exec_here_def)
  with Cons show ?case by (simp split: option.splits)
qed

lemma remove_from_skip: "remove_from A B (length xs + k) (xs @ ys) = remove_from A B k ys"
  by (induction xs) simp_all

text \<open>Removing the matches of a buffer that starts with a closed region.\<close>

lemma remove_matches_region:
  assumes "same_tag (o1 # opn) A" and "same_tag cls B"
    and "\<forall>j<length inner. \<not> matches_at B (drop j (inner @ cls @ post))"
  shows "remove_matches A B ((o1 # opn) @ inner @ cls @ post) = remove_matches A B post"
proof -
  let ?w = "(o1 # opn) @ inner @ cls"
  have e: "exec_here A B (o1 # opn @ inner @ cls @ post)
     = Some \<lparr>match_before = [], match_whole = ?w, match_group = inner, match_after = post\<rparr>"
    using exec_here_first [OF assms] by simp
  have "remove_from A B 0 (o1 # opn @ inner @ cls @ post)
      = remove_from A B (length (opn @ inner @ cls) + 0) ((opn @ inner @ cls) @ post)"
    by (simp add: e)
  also have "\<dots> = remove_from A B 0 post" by (rule remove_from_skip)
  finally show ?thesis by (simp add: remove_matches_def)
qed

text \<open>Occurrences as decompositions of the text.\<close>

lemma startsWith_iff: "startsWith P s \<longleftrightarrow> (\<exists>v. s = P @ v)"
  by (induction P s rule: startsWith.induct) auto

lemma String_includes_iff: "String_includes P s \<longleftrightarrow> (\<exists>u v. s = u @ P @ v)"
proof (induction s)
  case Nil
  then show ?case by (auto simp: startsWith_iff)
next
  case (Cons c cs)
  show ?case
  proof
    assume "String_includes P (c # cs)"
    then consider "startsWith P (c # cs)" | "String_includes P cs" by auto
    then show "\<exists>u v. c # cs = u @ P @ v"
    proof cases
      case 1
      then obtain v where "c # cs = P @ v" by (auto simp: startsWith_iff)
      then have "c # cs = [] @ P @ v" by simp
      then show ?thesis by blast
    next
      case 2
      with Cons.IH obtain u v where "cs = u @ P @ v" by blast
      then have "c # cs = (c # u) @ P @ v" by simp
      then show ?thesis by blast
    qed
  next
    assume "\<exists>u v. c # cs = u @ P @ v"
    then obtain u v where e: "c # cs = u @ P @ v" by blast
    show "String_includes P (c # cs)"
    proof (cases u)
      case Nil
      with e have "startsWith P (c # cs)" by (auto simp: startsWith_iff)
      then show ?thesis by simp
    next
      case (Cons x xs)
      with e have "cs = xs @ P @ v" by simp
      with Cons.IH have "String_includes P cs" by blast
      then show ?thesis by simp
    qed
  qed
qed

lemma matches_at_iff_tag: "matches_at P s \<longleftrightarrow> (\<exists>t v. s = t @ v \<and> same_tag t P)"
proof
  assume m: "matches_at P s"
  have "s = take (length P) s @ drop (length P) s" by simp
  with matches_at_same_tag [OF m] show "\<exists>t v. s = t @ v \<and> same_tag t P" by blast
next
  assume "\<exists>t v. s = t @ v \<and> same_tag t P"
  then show "matches_at P s" using same_tag_matches by blast
qed

lemma occurs_ci_iff: "occurs_ci P s \<longleftrightarrow> (\<exists>u t v. s = u @ t @ v \<and> same_tag t P)"
proof (induction s)
  case Nil
  then show ?case by (auto simp: matches_at_iff_tag)
next
  case (Cons c cs)
  show ?case
  proof
    assume "occurs_ci P (c # cs)"
    then consider "matches_at P (c # cs)" | "occurs_ci P cs" by auto
    then show "\<exists>u t v. c # cs = u @ t @ v \<and> same_tag t P"
    proof cases
      case 1
      then obtain t v where "c # cs = t @ v" "same_tag t P" by (auto simp: matches_at_iff_tag)
      then have "c # cs = [] @ t @ v \<and> same_tag t P" by simp
      then show ?thesis by blast
    next
      case 2
      with Cons.IH obtain u t v where "cs = u @ t @ v" "same_tag t P" by blast
      then have "c # cs = (c # u) @ t @ v \<and> same_tag t P" by simp
      then show ?thesis by blast
    qed
  next
    assume "\<exists>u t v. c # cs = u @ t @ v \<and> same_tag t P"
    then obtain u t v where e: "c # cs = u @ t @ v" and t: "same_tag t P" by blast
    show "occurs_ci P (c # cs)"
    proof (cases u)
      case Nil
      with e t have "matches_at P (c # cs)" by (auto simp: matches_at_iff_tag)
      then show ?thesis by simp
    next
      case (Cons x xs)
      with e have "cs = xs @ t @ v" by simp
      with Cons.IH t have "occurs_ci P cs" by blast
      then show ?thesis by simp
    qed
  qed
qed

lemma occurs_ci_part: "occurs_ci P m \<Longrightarrow> occurs_ci P (l @ m @ r)"
proof -
  assume "occurs_ci P m"
  then obtain u t v where "m = u @ t @ v" "same_tag t P" by (auto simp: occurs_ci_iff)
  then have "l @ m @ r = (l @ u) @ t @ (v @ r) \<and> same_tag t P" by simp
  then show ?thesis unfolding occurs_ci_iff by blast
qed

lemma String_includes_part: "String_includes P m \<Longrightarrow> String_includes P (l @ m @ r)"
proof -
  assume "String_includes P m"
  then obtain u v where "m = u @ P @ v" by (auto simp: String_includes_iff)
  then have "l @ m @ r = (l @ u) @ P @ (v @ r)" by simp
  then show ?thesis unfolding String_includes_iff by blast
qed

lemma String_includes_occurs: "String_includes P s \<Longrightarrow> occurs_ci P s"
  unfolding String_includes_iff occurs_ci_iff same_tag_def by blast

text \<open>Trimming cuts a text out of the middle.\<close>

lemma trim_part: "\<exists>l r. s = l @ trim s @ r"
proof -
  let ?d = "dropWhile is_space s"
  have "s = takeWhile is_space s @ ?d" by simp
  moreover have "rev ?d = takeWhile is_space (rev ?d) @ dropWhile is_space (rev ?d)" by simp
  then have "?d = rev (dropWhile is_space (rev ?d)) @ rev (takeWhile is_space (rev ?d))"
    by (metis rev_append rev_rev_ident)
  ultimately have "s = takeWhile is_space s @ trim s @ rev (takeWhile is_space (rev ?d))"
    by (simp add: trim_def)
  then show ?thesis by blast
qed

lemma occurs_ci_trim: "occurs_ci P (trim s) \<Longrightarrow> occurs_ci P s"
  using trim_part [of s] occurs_ci_part [of P "trim s"] by metis

lemma String_includes_trim: "String_includes P (trim s) \<Longrightarrow> String_includes P s"
  using trim_part [of s] String_includes_part [of P "trim s"] by metis

text \<open>Without an occurrence of the closing literal, nothing matches and nothing is removed.\<close>

lemma lazy_until_None: "\<not> occurs_ci B s \<Longrightarrow> lazy_until B s = None"
  by (induction s) auto

lemma occurs_ci_drop: "occurs_ci B (drop n s) \<Longrightarrow> occurs_ci B s"
  using occurs_ci_part [of B "drop n s" "take n s" "[]"] by simp

lemma exec_here_None: "\<not> occurs_ci B s \<Longrightarrow> exec_here A B s = None"
proof -
  assume "\<not> occurs_ci B s"
  then have "\<not> occurs_ci B (drop (length A) s)" using occurs_ci_drop by blast
  then have "lazy_until B (drop (length A) s) = None" by (rule lazy_until_None)
  then show ?thesis by (simp add: exec_here_def)
qed

lemma regex_exec_None: "\<not> occurs_ci B s \<Longrightarrow> regex_exec A B s = None"
  by (induction s) (auto simp: exec_here_None)

lemma occurs_ci_Cons: "\<not> occurs_ci B (c # cs) \<Longrightarrow> \<not> occurs_ci B cs"
  by simp

lemma remove_matches_None: "\<not> occurs_ci B s \<Longrightarrow> remove_matches A B s = s"
  unfolding remove_matches_def
proof (induction s)
  case Nil
  then show ?case by simp
next
  case (Cons c cs)
  from Cons.prems have "exec_here A B (c # cs) = None" by (rule exec_here_None)
  moreover from Cons.prems have "\<not> occurs_ci B cs" by simp
  ultimately show ?case using Cons.IH by simp
qed

text \<open>Lines: joining the lines of a text gives the text back, and a line is a part of it.\<close>

lemma split_lines_not_Nil: "split_lines s \<noteq> []"
  by (induction s) (auto split: list.splits)

lemma join_split_lines: "join_lines (split_lines s) = s"
proof (induction s)
  case Nil
  then show ?case by simp
next
  case (Cons c cs)
  obtain l ls where sp: "split_lines cs = l # ls"
    using split_lines_not_Nil [of cs] by (cases "split_lines cs") auto
  show ?case
  proof (cases "c = 10")
    case True
    with Cons.IH sp show ?thesis by simp
  next
    case False
    with Cons.IH sp show ?thesis by (cases ls) auto
  qed
qed

lemma join_lines_part: "l \<in> set ls \<Longrightarrow> \<exists>u v. join_lines ls = u @ l @ v"
proof (induction ls rule: join_lines.induct)
  case 1
  then show ?case by simp
next
  case (2 m)
  then have "join_lines [m] = [] @ l @ []" by simp
  then show ?case by blast
next
  case (3 m n ls)
  show ?case
  proof (cases "l = m")
    case True
    then have "join_lines (m # n # ls) = [] @ l @ (10 # join_lines (n # ls))" by simp
    then show ?thesis by blast
  next
    case False
    with 3 obtain u v where "join_lines (n # ls) = u @ l @ v" by auto
    then have "join_lines (m # n # ls) = (m @ 10 # u) @ l @ v" by simp
    then show ?thesis by blast
  qed
qed

lemma line_part: "l \<in> set (split_lines s) \<Longrightarrow> \<exists>u v. s = u @ l @ v"
  using join_lines_part [of l "split_lines s"] by (simp add: join_split_lines)

lemma String_includes_line:
  assumes "l \<in> set (split_lines s)" and "String_includes P (trim l)"
  shows "String_includes P s"
proof -
  from assms(2) have "String_includes P l" by (rule String_includes_trim)
  moreover from assms(1) obtain u v where "s = u @ l @ v" using line_part by blast
  ultimately show ?thesis using String_includes_part by blast
qed

text \<open>The first line of a text that starts with a literal without line feed starts with it.\<close>

lemma split_lines_prefix:
  assumes "10 \<notin> set P"
  shows "\<exists>r ls. split_lines (P @ v) = (P @ r) # ls"
  using assms
proof (induction P)
  case Nil
  obtain l ls where "split_lines v = l # ls"
    using split_lines_not_Nil [of v] by (cases "split_lines v") auto
  then show ?case by simp
next
  case (Cons p P)
  then obtain r ls where "split_lines (P @ v) = (P @ r) # ls" by auto
  with Cons.prems show ?case by simp
qed

text \<open>Trimming keeps a prefix that neither starts nor ends with white space.\<close>

lemma trim_prefix:
  assumes "P \<noteq> []" and "\<not> is_space (hd P)" and "\<not> is_space (last P)"
  shows "\<exists>r. trim (P @ v) = P @ r"
proof -
  have d: "dropWhile is_space (P @ v) = P @ v"
    using assms(1,2) by (cases P) auto
  have "\<not> (\<forall>x\<in>set (rev P). is_space x)"
    using assms(1,3) by (metis last_in_set set_rev)
  moreover have "dropWhile is_space (rev P) = rev P"
    using assms(1,3) by (cases "rev P") (auto simp: last_rev hd_rev[symmetric])
  ultimately have "dropWhile is_space (rev v @ rev P)
      = (if \<forall>x\<in>set (rev v). is_space x then rev P else dropWhile is_space (rev v) @ rev P)"
    by (simp add: dropWhile_append)
  then have "trim (P @ v)
      = (if \<forall>x\<in>set (rev v). is_space x then P else P @ rev (dropWhile is_space (rev v)))"
    by (simp add: trim_def d)
  then show ?thesis by (cases "\<forall>x\<in>set (rev v). is_space x") auto
qed

lemma findIndex_None: "findIndex P xs = None \<longleftrightarrow> (\<forall>x\<in>set xs. \<not> P x)"
  by (induction xs) (auto split: option.splits)

text \<open>The line scan of a document that starts at its first line and has no \<open></html>\<close>.\<close>

lemma line_scan_unterminated:
  assumes "startsWith (js ''<html'') T \<or> startsWith (js ''<!DOCTYPE'') T"
    and "String_includes (js ''<body'') T"
    and "\<not> String_includes (js ''</body>'') T"
    and "\<not> String_includes (js ''</html>'') T"
  shows "line_scan T = T @ 10 # js ''</body>'' @ 10 # js ''</html>''"
proof -
  from assms(1) obtain P v where P: "P = js ''<html'' \<or> P = js ''<!DOCTYPE''" and T: "T = P @ v"
    by (auto simp: startsWith_iff)
  from P have P1: "10 \<notin> set P" and P2: "P \<noteq> []" and P3: "\<not> is_space (hd P)"
    and P4: "\<not> is_space (last P)"
    by (auto simp: js_def is_space_def)
  from split_lines_prefix [OF P1, of v] obtain r ls where sp: "split_lines T = (P @ r) # ls"
    unfolding T by blast
  from trim_prefix [OF P2 P3 P4, of r] obtain r' where tr: "trim (P @ r) = P @ r'" by blast
  have "startsWith P (P @ r')" by (simp add: startsWith_iff)
  with P have "starts_html (trim (P @ r))" unfolding tr starts_html_def by auto
  then have start: "findIndex (\<lambda>l. starts_html (trim l)) (split_lines T) = Some 0"
    by (simp add: sp)
  have "\<forall>l\<in>set (rev (split_lines T)). \<not> String_includes (js ''</html>'') (trim l)"
    using String_includes_line [of _ T "js ''</html>''"] assms(4) by auto
  then have fin: "findIndex (\<lambda>l. String_includes (js ''</html>'') (trim l)) (rev (split_lines T)) = None"
    by (simp add: findIndex_None)
  from trim_prefix [OF P2 P3 P4, of v] obtain v' where "trim T = P @ v'" unfolding T by blast
  with P2 have ne: "trim T \<noteq> []" by simp
  have "String_includes P T" unfolding T String_includes_iff by (metis append_Nil)
  with P have doc: "String_includes (js ''<html'') T \<or> String_includes (js ''<!DOCTYPE'') T"
    by auto
  have add: "add_closing_tags T = T @ 10 # js ''</body>'' @ 10 # js ''</html>''"
    using assms(2,3,4) doc by (simp add: add_closing_tags_def)
  show ?thesis
    by (simp add: line_scan_def start fin join_split_lines ne add)
qed

text \<open>The buffer \<open><thinking>X</thinking>D\<close> for a text \<open>X\<close> without \<open><\<close>.\<close>

lemma thinking_region:
  assumes "60 \<notin> set X"
  shows "first_region (js ''<thinking>'') (js ''</thinking>'') (thinking_buffer X D)
     [] (js ''<thinking>'') X (js ''</thinking>'') D"
proof -
  have "\<forall>j<length X. \<not> matches_at (js ''</thinking>'') (drop j (X @ js ''</thinking>'' @ D))"
    using no_match_without_lt [OF assms] by (simp add: js_def)
  then show ?thesis
    by (simp add: first_region_def closed_region_def same_tag_def thinking_buffer_def)
qed

lemma thinking_buffer_no_reasoning:
  assumes "60 \<notin> set X" and "\<not> occurs_ci (js ''</reasoning>'') D"
  shows "regex_exec (js ''<reasoning>'') (js ''</reasoning>'') (thinking_buffer X D) = None"
proof -
  have "regex_exec (js ''<reasoning>'') (js ''</reasoning>'') D = None"
    using assms(2) by (rule regex_exec_None)
  then show ?thesis
    using assms(1)
    by (simp add: thinking_buffer_def js_def exec_here_def canonicalize_def regex_exec_skip_text)
qed

lemma thinking_buffer_no_code:
  assumes "60 \<notin> set X" and "\<not> occurs_ci (js ''</code>'') D"
  shows "regex_exec (js ''<code>'') (js ''</code>'') (thinking_buffer X D) = None"
proof -
  have "regex_exec (js ''<code>'') (js ''</code>'') D = None"
    using assms(2) by (rule regex_exec_None)
  then show ?thesis
    using assms(1)
    by (simp add: thinking_buffer_def js_def exec_here_def canonicalize_def regex_exec_skip_text)
qed

lemma thinking_buffer_cleaned:
  assumes "60 \<notin> set X" and "\<not> occurs_ci (js ''</thinking>'') D"
  shows "remove_matches (js ''<thinking>'') (js ''</thinking>'') (thinking_buffer X D) = D"
proof -
  have f: "\<forall>j<length X. \<not> matches_at (js ''</thinking>'') (drop j (X @ js ''</thinking>'' @ D))"
    using no_match_without_lt [OF assms(1)] by (simp add: js_def)
  have o: "same_tag (60 # js ''thinking>'') (js ''<thinking>'')" by (simp add: same_tag_def js_def)
  have c: "same_tag (js ''</thinking>'') (js ''</thinking>'')" by (simp add: same_tag_def)
  have "thinking_buffer X D = (60 # js ''thinking>'') @ X @ js ''</thinking>'' @ D"
    by (simp add: thinking_buffer_def js_def)
  then have "remove_matches (js ''<thinking>'') (js ''</thinking>'') (thinking_buffer X D)
      = remove_matches (js ''<thinking>'') (js ''</thinking>'') D"
    using remove_matches_region [OF o c f] by simp
  also have "\<dots> = D" using assms(2) by (rule remove_matches_None)
  finally show ?thesis .
qed

text \<open>Behind the thinking region, the ladder of the fallback comes down to the line scan.\<close>

lemma thinking_buffer_ladder:
  assumes "60 \<notin> set X" and "unterminated_document D"
  shows "extractHTMLFromContent (thinking_buffer X D) = line_scan (trim D)"
proof -
  from assms(2) have nt: "\<not> occurs_ci (js ''</thinking>'') D"
    and nr: "\<not> occurs_ci (js ''</reasoning>'') D"
    and nh: "\<not> occurs_ci (js ''</html>'') D" and nf: "\<not> occurs_ci fence D"
    by (simp_all add: unterminated_document_def)
  have c1: "remove_matches (js ''<thinking>'') (js ''</thinking>'') (thinking_buffer X D) = D"
    using assms(1) nt by (rule thinking_buffer_cleaned)
  have c2: "remove_matches (js ''<reasoning>'') (js ''</reasoning>'') D = D"
    using nr by (rule remove_matches_None)
  have "\<not> occurs_ci (js ''</html>'') (trim D)" using nh occurs_ci_trim by blast
  then have h: "regex_exec (js ''<!DOCTYPE html>'') (js ''</html>'') (trim D) = None"
    "regex_exec (js ''<html'') (js ''</html>'') (trim D) = None"
    by (simp_all add: regex_exec_None)
  have "\<not> occurs_ci fence (trim D)" using nf occurs_ci_trim by blast
  then have g: "regex_exec (fence @ js ''html'') fence (trim D) = None"
    "regex_exec fence fence (trim D) = None"
    by (simp_all add: regex_exec_None)
  show ?thesis by (simp add: extractHTMLFromContent_def c1 c2 h g)
qed

text \<open>
  Claim C7. Take a buffer that holds a closed \<open><thinking>\<close> region with a text \<open>X\<close> (any
  text without the character \<open><\<close>) followed by an HTML document \<open>D\<close> that is not
  terminated, as \<open><html><body><p>hi\<close> is: it starts with \<open><html\<close> or \<open><!DOCTYPE\<close>, holds
  \<open><body\<close> and no closing tag. The buffer has no closed \<open><code>\<close> region; the reasoning
  output is the label, a line feed, the trimmed text \<open>X\<close> and two line feeds; the
  document output is what the line scan of the fallback makes of the trimmed document:
  the document followed by a line feed, \<open></body>\<close>, a line feed and \<open></html>\<close>.
\<close>

theorem thinking_then_unterminated_html:
  assumes "60 \<notin> set X" and "unterminated_document D"
  shows "regex_exec (js ''<code>'') (js ''</code>'') (thinking_buffer X D) = None
       \<and> thoughtContent (parseAndUpdateContent (fresh_ui (thinking_buffer X D)))
           = thinking_label @ 10 # trim X @ [10, 10]
       \<and> codeContent (parseAndUpdateContent (fresh_ui (thinking_buffer X D)))
           = line_scan (trim D)
       \<and> line_scan (trim D) = trim D @ 10 # js ''</body>'' @ 10 # js ''</html>''"
proof -
  let ?ui = "fresh_ui (thinking_buffer X D)"
  from assms(2) have nr: "\<not> occurs_ci (js ''</reasoning>'') D"
    and nc: "\<not> occurs_ci (js ''</code>'') D"
    and nh: "\<not> occurs_ci (js ''</html>'') D"
    and nb: "\<not> String_includes (js ''</body>'') D"
    and st: "startsWith (js ''<html'') (trim D) \<or> startsWith (js ''<!DOCTYPE'') (trim D)"
    and bo: "String_includes (js ''<body'') (trim D)"
    by (simp_all add: unterminated_document_def)
  have s: "streamContent ?ui = thinking_buffer X D" by (simp add: fresh_ui_def)
  have t: "regex_exec (js ''<thinking>'') (js ''</thinking>'') (thinking_buffer X D)
     = Some \<lparr>match_before = [], match_whole = js ''<thinking>'' @ X @ js ''</thinking>'',
             match_group = X, match_after = D\<rparr>"
    using regex_exec_first_region [OF thinking_region [OF assms(1)]] .
  note r = thinking_buffer_no_reasoning [OF assms(1) nr]
  note c = thinking_buffer_no_code [OF assms(1) nc]
  note e = thinking_buffer_ladder [OF assms]
  have l: "thinking_label @ 10 # trim X @ [10, 10] \<noteq> []" by (simp add: thinking_label_def)
  have th: "thoughtContent (parseAndUpdateContent ?ui) = thinking_label @ 10 # trim X @ [10, 10]"
    using l by (simp add: parseAndUpdateContent_def parseAndUpdateContent_with_def s t r c Let_def)
  have co: "codeContent (parseAndUpdateContent ?ui) = line_scan (trim D)"
    by (simp add: parseAndUpdateContent_def parseAndUpdateContent_with_def s t r c Let_def e)
  have "\<not> String_includes (js ''</body>'') (trim D)" using nb String_includes_trim by blast
  moreover have "\<not> String_includes (js ''</html>'') (trim D)"
    using nh String_includes_occurs occurs_ci_trim by blast
  ultimately have ls: "line_scan (trim D) = trim D @ 10 # js ''</body>'' @ 10 # js ''</html>''"
    using st bo by (intro line_scan_unterminated)
  from c th co ls show ?thesis by simp
qed

theorem thinking_then_unterminated_html_witness:
  "60 \<notin> set (js ''X'') \<and> unterminated_document (js ''<html><body><p>hi'')
   \<and> thinking_buffer (js ''X'') (js ''<html><body><p>hi'')
       = js ''<thinking>X</thinking><html><body><p>hi''
   \<and> thoughtContent (parseAndUpdateContent
         (fresh_ui (thinking_buffer (js ''X'') (js ''<html><body><p>hi''))))
       = thinking_label @ 10 # js ''X'' @ [10, 10]
   \<and> codeContent (parseAndUpdateContent
         (fresh_ui (thinking_buffer (js ''X'') (js ''<html><body><p>hi''))))
       = js ''<html><body><p>hi'' @ 10 # js ''</body>'' @ 10 # js ''</html>''"
proof -
  have x: "60 \<notin> set (js ''X'')" by (simp add: js_def)
  have t: "trim (js ''X'') = js ''X''" "trim (js ''<html><body><p>hi'') = js ''<html><body><p>hi''"
    by (simp_all add: trim_def js_def is_space_def)
  have d: "unterminated_document (js ''<html><body><p>hi'')"
    unfolding unterminated_document_def t
    by (simp add: js_def fence_def canonicalize_def)
  have b: "thinking_buffer (js ''X'') (js ''<html><body><p>hi'')
      = js ''<thinking>X</thinking><html><body><p>hi''"
    by (simp add: thinking_buffer_def js_def)
  from thinking_then_unterminated_html [OF x d] x d b show ?thesis by (simp add: t)
qed

end
